theory Spec2Isabelle
  imports Complex_Main "HOL-Library.Sublist" "HOL-Library.Log_Nat"
begin

section \<open>JavaScript values and string helpers\<close>

text \<open>
  Values that reach the bridge are results of \<^verbatim>\<open>JSON.parse\<close>: trees without sharing.
  An object is an association list read with \<open>map_of\<close> (a parsed object has each key once).
  A JavaScript \<^verbatim>\<open>undefined\<close> is \<open>None\<close> of \<open>json option\<close>. Characters are code units
  below 256, and the numbers of a payload are integers (how \<^verbatim>\<open>JSON.stringify\<close> prints a
  fraction is left out).
\<close>

datatype json =
    JNull
  | JBool bool
  | JNum int
  | JStr string
  | JArr "json list"
  | JObj "(string \<times> json) list"

text \<open>\<^verbatim>\<open>typeof value === "object" && value !== null\<close>: arrays are objects too.\<close>

fun asObject :: "json option \<Rightarrow> json option" where
  "asObject (Some (JObj kvs)) = Some (JObj kvs)"
| "asObject (Some (JArr xs)) = Some (JArr xs)"
| "asObject _ = None"

fun getString :: "json option \<Rightarrow> string option" where
  "getString (Some (JStr s)) = Some s"
| "getString _ = None"

fun getNumber :: "json option \<Rightarrow> int option" where
  "getNumber (Some (JNum n)) = Some n"
| "getNumber _ = None"

text \<open>
  Property access \<^verbatim>\<open>object.key\<close> for the alphabetic keys the bridge reads: an array has
  none of them.
\<close>

fun jget :: "json \<Rightarrow> string \<Rightarrow> json option" where
  "jget (JObj kvs) k = map_of kvs k"
| "jget _ k = None"

text \<open>Optional chaining \<^verbatim>\<open>value?.key\<close>.\<close>

definition oprop :: "json option \<Rightarrow> string \<Rightarrow> json option" where
  "oprop v k = (case v of None \<Rightarrow> None | Some j \<Rightarrow> jget j k)"

text \<open>Nullish coalescing \<^verbatim>\<open>a ?? b\<close>: \<^verbatim>\<open>null\<close> and \<^verbatim>\<open>undefined\<close> give way.\<close>

fun nullish :: "json option \<Rightarrow> json option \<Rightarrow> json option" where
  "nullish None b = b"
| "nullish (Some JNull) b = b"
| "nullish a b = a"

text \<open>JavaScript truthiness of a parsed value.\<close>

fun truthy :: "json option \<Rightarrow> bool" where
  "truthy None = False"
| "truthy (Some JNull) = False"
| "truthy (Some (JBool b)) = b"
| "truthy (Some (JNum n)) = (n \<noteq> 0)"
| "truthy (Some (JStr s)) = (s \<noteq> [])"
| "truthy (Some _) = True"

definition lower_char :: "char \<Rightarrow> char" where
  "lower_char c =
     (let n = (of_char c :: nat) in if 65 \<le> n \<and> n \<le> 90 then char_of (n + 32) else c)"

definition toLowerCase :: "string \<Rightarrow> string" where
  "toLowerCase s = map lower_char s"

definition is_ws :: "char \<Rightarrow> bool" where
  "is_ws c = ((of_char c :: nat) \<in> {9, 10, 11, 12, 13, 32, 160})"

definition trim :: "string \<Rightarrow> string" where
  "trim s = rev (dropWhile is_ws (rev (dropWhile is_ws s)))"

section \<open>Status normalization\<close>

datatype cmd_status = CmdRunning | CmdCompleted | CmdFailed

datatype turn_status = TurnRunning | TurnCompleted | TurnFailed | TurnInterrupted

text \<open>\<^verbatim>\<open>DurangoBridge.mapCommandStatus\<close>.\<close>

definition mapCommandStatus :: "json option \<Rightarrow> cmd_status" where
  "mapCommandStatus status =
     (let normalized = (case getString status of None \<Rightarrow> [] | Some s \<Rightarrow> toLowerCase s) in
      if normalized = ''in_progress'' \<or> normalized = ''inprogress'' \<or>
         normalized = ''running'' \<or> normalized = ''queued''
      then CmdRunning
      else if normalized = ''completed'' \<or> normalized = ''success'' \<or>
              normalized = ''succeeded''
      then CmdCompleted
      else CmdFailed)"

text \<open>\<^verbatim>\<open>DurangoBridge.normalizeTurnLifecycleStatus\<close>.\<close>

definition normalizeTurnLifecycleStatus :: "json option \<Rightarrow> turn_status option" where
  "normalizeTurnLifecycleStatus status =
     (case getString status of
        None \<Rightarrow> None
      | Some s \<Rightarrow>
          (let normalized = trim (toLowerCase s) in
           if normalized = [] then None
           else if normalized = ''running'' \<or> normalized = ''in_progress'' \<or>
                   normalized = ''inprogress'' \<or> normalized = ''queued'' \<or>
                   normalized = ''pending'' \<or> normalized = ''started''
           then Some TurnRunning
           else if normalized = ''completed'' \<or> normalized = ''complete'' \<or>
                   normalized = ''success'' \<or> normalized = ''succeeded''
           then Some TurnCompleted
           else if normalized = ''interrupted'' \<or> normalized = ''aborted'' \<or>
                   normalized = ''cancelled'' \<or> normalized = ''canceled''
           then Some TurnInterrupted
           else if normalized = ''failed'' \<or> normalized = ''error'' \<or>
                   normalized = ''errored''
           then Some TurnFailed
           else None))"

section \<open>Timestamp normalization\<close>

text \<open>
  A JavaScript number is a binary64 double: not-a-number, an infinity, or a finite value,
  read here as the real it denotes. A finite double is a whole number \<open>q\<close> of units
  \<^verbatim>\<open>2^e\<close> with \<^verbatim>\<open>|q| < 2^53\<close> and \<open>e\<close> from \<open>-1074\<close> to \<open>971\<close>.
\<close>

datatype jsnumber = NaN | PosInfinity | NegInfinity | Finite real

definition pow2 :: "int \<Rightarrow> real" where
  "pow2 e = (if 0 \<le> e then 2 ^ nat e else 1 / 2 ^ nat (- e))"

text \<open>
  The exponent of the unit in the last place of the doubles around \<open>x\<close>: the least \<open>e\<close> from
  \<open>-1074\<close> on with \<^verbatim>\<open>|x| < 2^(e+53)\<close>. The floor of \<^verbatim>\<open>|x| * 2^1074\<close> counts \<open>x\<close> in units of
  the least positive double, and a count of \<open>k\<close> bits puts \<^verbatim>\<open>|x|\<close> below \<^verbatim>\<open>2^(k-1074)\<close>.
\<close>

definition ulpExponent :: "real \<Rightarrow> int" where
  "ulpExponent x = max (- 1074) (bitlen \<lfloor>\<bar>x\<bar> * 2 ^ 1074\<rfloor> - 1127)"

text \<open>Rounding to the nearest whole number, a tie going to the even one.\<close>

definition roundHalfEven :: "real \<Rightarrow> int" where
  "roundHalfEven r =
     (let f = \<lfloor>r\<rfloor>; d = r - of_int f
      in if d < 1 / 2 then f else if 1 / 2 < d then f + 1 else if even f then f else f + 1)"

text \<open>
  The result of an arithmetic operation whose exact value is \<open>x\<close>: the double nearest to
  \<open>x\<close>, a tie going to the even significand. This is the finite result, which an
  operation has below \<^verbatim>\<open>2^1024\<close>; the one product formed here is below \<open>10\<^sup>1\<^sup>5\<close>.
\<close>

definition nearestDouble :: "real \<Rightarrow> real" where
  "nearestDouble x = of_int (roundHalfEven (x / pow2 (ulpExponent x))) * pow2 (ulpExponent x)"

text \<open>
  \<^verbatim>\<open>DurangoBridge.normalizeTimestamp\<close>; \<open>now\<close> is the reading of \<^verbatim>\<open>Date.now()\<close> and
  \<open>None\<close> is a value that is not a number. The product \<^verbatim>\<open>value * 1000\<close> is the product of
  two doubles; \<^verbatim>\<open>Math.round\<close> is \<open>\<lfloor>x + 1/2\<rfloor>\<close>, which is \<open>round\<close>.
\<close>

fun normalizeTimestamp :: "int \<Rightarrow> jsnumber option \<Rightarrow> int" where
  "normalizeTimestamp now (Some (Finite v)) =
     (if v \<le> 0 then now
      else if v < 1000000000000 then round (nearestDouble (v * 1000)) else round v)"
| "normalizeTimestamp now _ = now"

section \<open>The relay link\<close>

datatype ready_state = CONNECTING | OPEN | CLOSING | CLOSED

datatype ack_status = Accepted | AckRunning | AckCompleted | AckFailed

text \<open>
  \<^verbatim>\<open>DurangoThreadItem\<close>. Every item starts with its \<^verbatim>\<open>id\<close> and \<^verbatim>\<open>turnId\<close> and ends with its
  \<^verbatim>\<open>timestamp\<close>; in between are the text of a message or plan, the summary lines of a
  reasoning, the command, cwd, status, output and exit code of a command execution, and
  the path and patch of a file change.
\<close>

datatype thread_item =
    UserMessage string string string int
  | AgentMessage string string string int
  | Reasoning string string "string list" int
  | CommandExecution string string string string cmd_status "string option" "int option" int
  | FileChange string string string string int
  | Plan string string string int

record thread_ref =
  tr_id :: string
  tr_projectId :: string
  tr_codexThreadId :: string
  tr_title :: string
  tr_status :: string
  tr_createdAt :: int
  tr_updatedAt :: int

text \<open>
  \<^verbatim>\<open>RelayClientMessage\<close>. A hello carries the token and a heartbeat the machine id and
  timestamp; an ack carries request id, machine id, status, payload and error (code and
  message); an event carries request id, machine id, thread id and item; a thread update
  carries machine id, thread id and title; a thread upsert the machine id and the thread.
\<close>

datatype client_message =
    MachineHello string
  | MachineHeartbeat string int
  | DispatchAck string string ack_status "json option" "(string \<times> string) option"
  | EventUpsert string string string thread_item
  | ThreadUpdate string string string
  | ThreadUpsert string thread_ref

text \<open>
  The bridge's fields that the operations below read or write: the relay socket (\<open>None\<close>
  is \<^verbatim>\<open>null\<close>) with the frames handed to it so far, the thread bindings, and how many
  identifiers \<^verbatim>\<open>randomUUID()\<close> has produced (the next one is \<open>randomUUID (draws b)\<close>).
\<close>

record bridge =
  ws :: "ready_state option"
  wire :: "client_message list"
  threadBindings :: "string \<rightharpoonup> string"
  draws :: nat

text \<open>\<^verbatim>\<open>DurangoBridge.send\<close>.\<close>

definition send :: "client_message \<Rightarrow> bridge \<Rightarrow> bridge" where
  "send message b =
     (if ws b = None \<or> ws b \<noteq> Some OPEN then b
      else b\<lparr>wire := wire b @ [message]\<rparr>)"

section \<open>Printing: decimal numbers and \<^verbatim>\<open>JSON.stringify\<close>\<close>

definition digit_char :: "nat \<Rightarrow> char" where
  "digit_char d = char_of (48 + d)"

fun show_nat :: "nat \<Rightarrow> string" where
  "show_nat n = (if n < 10 then [digit_char n] else show_nat (n div 10) @ [digit_char (n mod 10)])"

declare show_nat.simps [simp del]

definition show_int :: "int \<Rightarrow> string" where
  "show_int i = (if i < 0 then CHR ''-'' # show_nat (nat (- i)) else show_nat (nat i))"

definition hex_char :: "nat \<Rightarrow> char" where
  "hex_char d = (if d < 10 then char_of (48 + d) else char_of (87 + d))"

text \<open>The escapes of \<^verbatim>\<open>JSON.stringify\<close> for one code unit.\<close>

definition escape_char :: "char \<Rightarrow> string" where
  "escape_char c =
     (let n = (of_char c :: nat) in
      if n = 34 then [CHR 0x5C, CHR 0x22]
      else if n = 92 then [CHR 0x5C, CHR 0x5C]
      else if n = 8 then [CHR 0x5C, CHR ''b'']
      else if n = 9 then [CHR 0x5C, CHR ''t'']
      else if n = 10 then [CHR 0x5C, CHR ''n'']
      else if n = 12 then [CHR 0x5C, CHR ''f'']
      else if n = 13 then [CHR 0x5C, CHR ''r'']
      else if n < 32 then [CHR 0x5C, CHR ''u'', CHR ''0'', CHR ''0'', hex_char (n div 16), hex_char (n mod 16)]
      else [c])"

definition quote :: "string \<Rightarrow> string" where
  "quote s = CHR 0x22 # concat (map escape_char s) @ [CHR 0x22]"

fun join_with :: "string \<Rightarrow> string list \<Rightarrow> string" where
  "join_with sep [] = []"
| "join_with sep [x] = x"
| "join_with sep (x # y # ys) = x @ sep @ join_with sep (y # ys)"

fun stringify :: "json \<Rightarrow> string" where
  "stringify JNull = ''null''"
| "stringify (JBool b) = (if b then ''true'' else ''false'')"
| "stringify (JNum n) = show_int n"
| "stringify (JStr s) = quote s"
| "stringify (JArr xs) = ''['' @ join_with '','' (map stringify xs) @ '']''"
| "stringify (JObj kvs) =
     ''{'' @ join_with '','' (map (\<lambda>kv. quote (fst kv) @ '':'' @ stringify (snd kv)) kvs) @ ''}''"

section \<open>The event translator\<close>

lemma map_of_size_less:
  "map_of kvs k = Some v \<Longrightarrow> size v < Suc (size_list (size_prod (\<lambda>_. 0) size) kvs)"
  by (induction kvs) (auto split: if_splits)

text \<open>\<^verbatim>\<open>typeof object.key === "string"\<close>, with the string.\<close>

definition string_field :: "(string \<times> json) list \<Rightarrow> string \<Rightarrow> string option" where
  "string_field kvs k = getString (map_of kvs k)"

text \<open>\<^verbatim>\<open>DurangoBridge.extractText\<close>.\<close>

function extractText :: "json \<Rightarrow> string" where
  "extractText (JStr s) = s"
| "extractText (JArr xs) =
     join_with [CHR 0x0A] (filter (\<lambda>entry. entry \<noteq> []) (map (\<lambda>entry. trim (extractText entry)) xs))"
| "extractText (JObj kvs) =
     (case string_field kvs ''text'' of Some s \<Rightarrow> s | None \<Rightarrow>
      case string_field kvs ''value'' of Some s \<Rightarrow> s | None \<Rightarrow>
      case string_field kvs ''delta'' of Some s \<Rightarrow> s | None \<Rightarrow>
      case string_field kvs ''summaryText'' of Some s \<Rightarrow> s | None \<Rightarrow>
      case map_of kvs ''content'' of Some v \<Rightarrow> extractText v | None \<Rightarrow>
      case map_of kvs ''summary'' of Some v \<Rightarrow> extractText v | None \<Rightarrow>
      case map_of kvs ''output'' of Some v \<Rightarrow> extractText v | None \<Rightarrow> [])"
| "extractText JNull = []"
| "extractText (JBool b) = []"
| "extractText (JNum n) = []"
  by pat_completeness auto
termination
  by (relation "measure size") (auto dest: map_of_size_less simp: less_Suc_eq_le size_list_estimation')

text \<open>The same on a value that may be \<^verbatim>\<open>undefined\<close>.\<close>

definition extractTextU :: "json option \<Rightarrow> string" where
  "extractTextU v = (case v of None \<Rightarrow> [] | Some j \<Rightarrow> extractText j)"

text \<open>\<^verbatim>\<open>DurangoBridge.extractSummaryLines\<close>.\<close>

function extractSummaryLines :: "json \<Rightarrow> string list" where
  "extractSummaryLines (JArr xs) =
     filter (\<lambda>entry. entry \<noteq> []) (map trim (concat (map extractSummaryLines xs)))"
| "extractSummaryLines (JStr s) = (let trimmed = trim s in if trimmed \<noteq> [] then [trimmed] else [])"
| "extractSummaryLines (JObj kvs) =
     (case string_field kvs ''summaryText'' of Some s \<Rightarrow> [s] | None \<Rightarrow>
      case string_field kvs ''text'' of Some s \<Rightarrow> [s] | None \<Rightarrow>
      case map_of kvs ''summary'' of Some v \<Rightarrow> extractSummaryLines v | None \<Rightarrow>
      case map_of kvs ''content'' of Some v \<Rightarrow> extractSummaryLines v | None \<Rightarrow> [])"
| "extractSummaryLines JNull = []"
| "extractSummaryLines (JBool b) = []"
| "extractSummaryLines (JNum n) = []"
  by pat_completeness auto
termination
  by (relation "measure size") (auto dest: map_of_size_less simp: less_Suc_eq_le size_list_estimation')

definition extractSummaryLinesU :: "json option \<Rightarrow> string list" where
  "extractSummaryLinesU v = (case v of None \<Rightarrow> [] | Some j \<Rightarrow> extractSummaryLines j)"

text \<open>One element of \<^verbatim>\<open>changes\<close> in the file-change branch of \<^verbatim>\<open>mapCodexItem\<close>.\<close>

definition mapChange :: "string \<Rightarrow> string \<Rightarrow> int \<Rightarrow> nat \<times> json \<Rightarrow> thread_item option" where
  "mapChange itemId turnId timestamp ic =
     (case asObject (Some (snd ic)) of
        None \<Rightarrow> None
      | Some changeObject \<Rightarrow>
          (case getString (jget changeObject ''path'') of
             None \<Rightarrow> None
           | Some path \<Rightarrow>
               if path = [] then None
               else
                 let t = trim (extractTextU (nullish (jget changeObject ''patch'') (jget changeObject ''diff'')));
                     patch = (if t \<noteq> [] then t else ''(no patch text)'')
                 in Some (FileChange (itemId @ '':'' @ show_nat (fst ic)) turnId path patch timestamp)))"

text \<open>
  \<^verbatim>\<open>DurangoBridge.mapCodexItem\<close>; \<open>fresh\<close> is what \<^verbatim>\<open>randomUUID()\<close> returns when the item
  has no string \<^verbatim>\<open>id\<close>.
\<close>

definition mapCodexItem :: "string \<Rightarrow> json \<Rightarrow> string \<Rightarrow> int \<Rightarrow> thread_item list" where
  "mapCodexItem fresh item turnId timestamp =
     (let itemType = (case getString (jget item ''type'') of None \<Rightarrow> [] | Some s \<Rightarrow> toLowerCase s);
          itemId = (case getString (jget item ''id'') of None \<Rightarrow> fresh | Some s \<Rightarrow> s)
      in
      if itemType = ''usermessage'' \<or> itemType = ''user_message'' then
        (let t = trim (extractTextU (nullish (jget item ''content'') (jget item ''text'')))
         in if t = [] then [] else [UserMessage itemId turnId t timestamp])
      else if itemType = ''agentmessage'' \<or> itemType = ''assistant_message'' \<or> itemType = ''assistantmessage'' then
        (let t = trim (extractTextU (nullish (jget item ''content'') (jget item ''text'')))
         in if t = [] then [] else [AgentMessage itemId turnId t timestamp])
      else if itemType = ''reasoning'' then
        (let summary = extractSummaryLinesU (nullish (jget item ''summary'') (jget item ''content''))
         in if summary = [] then [] else [Reasoning itemId turnId summary timestamp])
      else if itemType = ''commandexecution'' \<or> itemType = ''command_execution'' then
        (let command = (case getString (jget item ''command'') of None \<Rightarrow> [] | Some s \<Rightarrow> s)
         in if command = [] then []
            else
              let output = trim (extractTextU (nullish (jget item ''aggregatedOutput'') (jget item ''output'')))
              in [CommandExecution itemId turnId command
                    (case getString (jget item ''cwd'') of None \<Rightarrow> [] | Some s \<Rightarrow> s)
                    (mapCommandStatus (jget item ''status''))
                    (if output \<noteq> [] then Some output else None)
                    (getNumber (jget item ''exitCode''))
                    timestamp])
      else if itemType = ''filechange'' \<or> itemType = ''file_change'' then
        (let changes = (case jget item ''changes'' of Some (JArr cs) \<Rightarrow> cs | _ \<Rightarrow> [])
         in List.map_filter (mapChange itemId turnId timestamp) (zip [0 ..< length changes] changes))
      else if itemType = ''plan'' then
        (let t = trim (extractTextU (nullish (jget item ''text'') (jget item ''content'')))
         in if t = [] then [] else [Plan itemId turnId t timestamp])
      else [Plan itemId turnId (stringify item) timestamp])"

section \<open>The hydration engine\<close>

text \<open>The \<open>n\<close>-th identifier of \<^verbatim>\<open>randomUUID()\<close>: distinct draws are distinct strings.\<close>

definition randomUUID :: "nat \<Rightarrow> string" where
  "randomUUID n = ''uuid-'' @ show_nat n"

text \<open>\<^verbatim>\<open>DurangoBridge.normalizeTurnEntries\<close>, with the count of identifiers drawn.\<close>

fun normalizeTurnEntries :: "json list \<Rightarrow> nat \<Rightarrow> json list \<times> nat" where
  "normalizeTurnEntries [] d = ([], d)"
| "normalizeTurnEntries (entry # entries) d =
     (case asObject (Some entry) of
        Some turn \<Rightarrow> (let (r, d') = normalizeTurnEntries entries d in (turn # r, d'))
      | None \<Rightarrow>
          (let (r, d') = normalizeTurnEntries entries (Suc d)
           in (JObj [(''id'', JStr (randomUUID d)), (''items'', JArr [entry])] # r, d')))"

text \<open>
  What one visited object appends to the queue of \<^verbatim>\<open>extractTurnsFromThreadReadResponse\<close>:
  its truthy \<^verbatim>\<open>thread\<close>, \<^verbatim>\<open>result\<close>, \<^verbatim>\<open>payload\<close>, \<^verbatim>\<open>response\<close>, and a truthy \<^verbatim>\<open>data\<close> that is no
  array.
\<close>

definition pushed :: "json \<Rightarrow> string \<Rightarrow> json list" where
  "pushed object k =
     (case jget object k of
        None \<Rightarrow> []
      | Some v \<Rightarrow>
          if truthy (Some v) then
            (if k = ''data'' then (case v of JArr xs \<Rightarrow> [] | _ \<Rightarrow> [v]) else [v])
          else [])"

definition descend :: "json \<Rightarrow> json list" where
  "descend object =
     concat (map (pushed object) [''thread'', ''result'', ''payload'', ''response'', ''data''])"

definition queue_weight :: "json list \<Rightarrow> nat" where
  "queue_weight q = sum_list (map (\<lambda>j. Suc (size j)) q)"

lemma sum_list_if_absent:
  "a \<notin> set ks \<Longrightarrow> map (\<lambda>k. if k = a then (A::nat) else g k) ks = map g ks"
  by (induction ks) auto

lemma sum_list_if_distinct:
  "distinct ks \<Longrightarrow>
     sum_list (map (\<lambda>k. if k = a then (A::nat) else g k) ks) \<le> A + sum_list (map g ks)"
  by (induction ks) (auto simp: sum_list_if_absent)

lemma lookup_weight_le:
  "distinct ks \<Longrightarrow>
     sum_list (map (\<lambda>k. case map_of kvs k of None \<Rightarrow> 0 | Some v \<Rightarrow> Suc (size v)) ks)
       \<le> size_list (size_prod (\<lambda>_. 0) size) kvs"
proof (induction kvs)
  case Nil
  then show ?case by simp
next
  case (Cons kv kvs)
  obtain a v where kv: "kv = (a, v)" by (cases kv)
  let ?g = "\<lambda>k. case map_of kvs k of None \<Rightarrow> 0 | Some v \<Rightarrow> Suc (size v)"
  have "(\<lambda>k. case map_of (kv # kvs) k of None \<Rightarrow> 0 | Some v \<Rightarrow> Suc (size v))
          = (\<lambda>k. if k = a then Suc (size v) else ?g k)"
    by (auto simp: kv fun_eq_iff)
  then have "sum_list (map (\<lambda>k. case map_of (kv # kvs) k of None \<Rightarrow> 0 | Some v \<Rightarrow> Suc (size v)) ks)
          \<le> Suc (size v) + sum_list (map ?g ks)"
    using sum_list_if_distinct [OF Cons.prems, of a "Suc (size v)" ?g] by simp
  also have "\<dots> \<le> Suc (size v) + size_list (size_prod (\<lambda>_. 0) size) kvs"
    using Cons.IH [OF Cons.prems] by simp
  finally show ?case by (simp add: kv)
qed

lemma pushed_weight:
  "queue_weight (pushed (JObj kvs) k) \<le> (case map_of kvs k of None \<Rightarrow> 0 | Some v \<Rightarrow> Suc (size v))"
  by (auto simp: pushed_def queue_weight_def split: option.splits json.splits)

lemma queue_weight_append: "queue_weight (xs @ ys) = queue_weight xs + queue_weight ys"
  by (simp add: queue_weight_def)

lemma queue_weight_concat_pushed:
  "queue_weight (concat (map (pushed (JObj kvs)) ks))
     \<le> sum_list (map (\<lambda>k. case map_of kvs k of None \<Rightarrow> 0 | Some v \<Rightarrow> Suc (size v)) ks)"
proof (induction ks)
  case Nil
  show ?case by (simp add: queue_weight_def)
next
  case (Cons k ks)
  show ?case
    using Cons.IH pushed_weight [of kvs k] by (simp add: queue_weight_append)
qed

lemma descend_weight: "queue_weight (descend object) \<le> size object"
proof (cases object)
  case (JObj kvs)
  have "queue_weight (descend (JObj kvs))
          \<le> size_list (size_prod (\<lambda>_. 0) size) kvs"
    unfolding descend_def
    by (rule order_trans [OF queue_weight_concat_pushed lookup_weight_le]) simp
  then show ?thesis by (simp add: JObj)
qed (simp_all add: descend_def pushed_def queue_weight_def)

text \<open>
  \<^verbatim>\<open>DurangoBridge.extractTurnsFromThreadReadResponse\<close>. One visited object either
  yields the turns (from \<^verbatim>\<open>turns\<close>, from \<^verbatim>\<open>turnsPage.data\<close> or \<^verbatim>\<open>turns_page.data\<close>, or as one
  turn around \<^verbatim>\<open>items\<close>) or is descended into.
\<close>

definition visit :: "json \<Rightarrow> nat \<Rightarrow> (json list \<times> nat) option" where
  "visit object d =
     (case jget object ''turns'' of
        Some (JArr ts) \<Rightarrow> Some (normalizeTurnEntries ts d)
      | _ \<Rightarrow>
          (let turnsPage =
                 (case asObject (jget object ''turnsPage'') of
                    Some p \<Rightarrow> Some p
                  | None \<Rightarrow> asObject (jget object ''turns_page''))
           in case oprop turnsPage ''data'' of
                Some (JArr ds) \<Rightarrow> Some (normalizeTurnEntries ds d)
              | _ \<Rightarrow>
                  (case jget object ''items'' of
                     Some (JArr its) \<Rightarrow>
                       (case getString (jget object ''id'') of
                          Some s \<Rightarrow> Some ([JObj [(''id'', JStr s), (''items'', JArr its)]], d)
                        | None \<Rightarrow>
                            Some ([JObj [(''id'', JStr (randomUUID d)), (''items'', JArr its)]], Suc d))
                   | _ \<Rightarrow> None)))"

text \<open>
  The loop over the queue. The \<^verbatim>\<open>seen\<close> set holds object identities; a parsed response is
  a tree, so no object is met twice and the set never cuts the walk.
\<close>

function extractTurnsLoop :: "json list \<Rightarrow> nat \<Rightarrow> json list \<times> nat" where
  "extractTurnsLoop [] d = ([], d)"
| "extractTurnsLoop (current # queue) d =
     (case asObject (Some current) of
        None \<Rightarrow> extractTurnsLoop queue d
      | Some object \<Rightarrow>
          (case visit object d of
             Some found \<Rightarrow> found
           | None \<Rightarrow> extractTurnsLoop (queue @ descend object) d))"
  by pat_completeness auto
termination
proof (relation "measure (\<lambda>(q, d). queue_weight q)")
  show "wf (measure (\<lambda>(q, d). queue_weight q))" by simp
next
  fix current :: json and queue :: "json list" and d :: nat
  show "((queue, d), current # queue, d) \<in> measure (\<lambda>(q, d). queue_weight q)"
    by (simp add: queue_weight_def)
next
  fix current :: json and queue :: "json list" and d :: nat and object :: json
  assume "asObject (Some current) = Some object"
  then have "object = current" by (cases current) auto
  then show "((queue @ descend object, d), current # queue, d) \<in> measure (\<lambda>(q, d). queue_weight q)"
    using descend_weight [of current] by (simp add: queue_weight_append) (simp add: queue_weight_def)
qed

definition extractTurnsFromThreadReadResponse :: "json \<Rightarrow> nat \<Rightarrow> json list \<times> nat" where
  "extractTurnsFromThreadReadResponse response d = extractTurnsLoop [response] d"

text \<open>\<^verbatim>\<open>DurangoBridge.extractItemsFromTurn\<close>.\<close>

fun firstArray :: "json option list \<Rightarrow> json list option" where
  "firstArray [] = None"
| "firstArray (Some (JArr xs) # cs) = Some xs"
| "firstArray (c # cs) = firstArray cs"

definition extractItemsFromTurn :: "json \<Rightarrow> json list" where
  "extractItemsFromTurn turn =
     (case firstArray [jget turn ''items'', jget turn ''events'', jget turn ''messages'',
                       jget turn ''output'', jget turn ''content''] of
        Some xs \<Rightarrow> xs
      | None \<Rightarrow>
          (case jget turn ''item'' of
             Some v \<Rightarrow> [v]
           | None \<Rightarrow> (case jget turn ''message'' of Some v \<Rightarrow> [v] | None \<Rightarrow> [])))"

text \<open>\<^verbatim>\<open>DurangoBridge.inferHydratedTurnLifecycleStatus\<close>: the loop over the candidates.\<close>

fun firstNormalized :: "json option list \<Rightarrow> turn_status option" where
  "firstNormalized [] = None"
| "firstNormalized (candidate # candidates) =
     (case normalizeTurnLifecycleStatus candidate of
        None \<Rightarrow> firstNormalized candidates
      | Some normalized \<Rightarrow> Some normalized)"

definition statusCandidates :: "json \<Rightarrow> json option list" where
  "statusCandidates turn =
     [jget turn ''status'',
      oprop (asObject (jget turn ''result'')) ''status'',
      oprop (asObject (jget turn ''turn'')) ''status'',
      oprop (asObject (jget turn ''metadata'')) ''status'']"

definition inferHydratedTurnLifecycleStatus :: "json \<Rightarrow> nat \<Rightarrow> bool \<Rightarrow> turn_status option" where
  "inferHydratedTurnLifecycleStatus turn importedTurnItemCount hasRunningActivity =
     (case firstNormalized (statusCandidates turn) of
        Some normalized \<Rightarrow> (if normalized = TurnRunning then None else Some normalized)
      | None \<Rightarrow>
          if hasRunningActivity then None
          else if importedTurnItemCount > 0 then Some TurnCompleted
          else None)"

text \<open>
  The variables of \<^verbatim>\<open>hydrateThreadHistory\<close>: the bridge, the running \<^verbatim>\<open>timestamp\<close>, the
  two counters, and the flag of the turn being replayed.
\<close>

record hydration =
  hy_bridge :: bridge
  hy_timestamp :: int
  hy_importedItemCount :: nat
  hy_importedTurnItemCount :: nat
  hy_hasRunningActivity :: bool

text \<open>\<^verbatim>\<open>this.send({type: "event.upsert", requestId: turnId, machineId, threadId, item})\<close>.\<close>

definition upsert :: "string \<Rightarrow> string \<Rightarrow> string \<Rightarrow> thread_item \<Rightarrow> hydration \<Rightarrow> hydration" where
  "upsert machineId threadId turnId item h =
     h\<lparr>hy_bridge := send (EventUpsert turnId machineId threadId item) (hy_bridge h)\<rparr>"

text \<open>\<^verbatim>\<open>randomUUID()\<close> together with the bridge that has drawn it.\<close>

definition draw :: "hydration \<Rightarrow> string \<times> hydration" where
  "draw h =
     (randomUUID (draws (hy_bridge h)),
      h\<lparr>hy_bridge := (hy_bridge h)\<lparr>draws := Suc (draws (hy_bridge h))\<rparr>\<rparr>)"

fun isRunningCommand :: "thread_item \<Rightarrow> bool" where
  "isRunningCommand (CommandExecution i t c w st out ex ts) = (st = CmdRunning)"
| "isRunningCommand _ = False"

text \<open>The loop over \<^verbatim>\<open>mappedItems\<close>.\<close>

fun emitMapped :: "string \<Rightarrow> string \<Rightarrow> string \<Rightarrow> thread_item list \<Rightarrow> hydration \<Rightarrow> hydration" where
  "emitMapped machineId threadId turnId [] h = h"
| "emitMapped machineId threadId turnId (mappedItem # mappedItems) h =
     (let h1 = (if isRunningCommand mappedItem then h\<lparr>hy_hasRunningActivity := True\<rparr> else h);
          h2 = upsert machineId threadId turnId mappedItem h1
      in emitMapped machineId threadId turnId mappedItems
           (h2\<lparr>hy_importedTurnItemCount := hy_importedTurnItemCount h2 + 1,
               hy_importedItemCount := hy_importedItemCount h2 + 1\<rparr>))"

text \<open>The body of the loop over \<^verbatim>\<open>rawItems\<close>.\<close>

definition replayItem :: "string \<Rightarrow> string \<Rightarrow> string \<Rightarrow> json \<Rightarrow> hydration \<Rightarrow> hydration" where
  "replayItem machineId threadId turnId rawItem h =
     (case asObject (Some rawItem) of
        None \<Rightarrow>
          (let t = trim (extractText rawItem);
               fallbackText = (if t \<noteq> [] then t else stringify rawItem)
           in if fallbackText = [] then h
              else
                let (fresh, h1) = draw h;
                    h2 = upsert machineId threadId turnId
                           (Plan fresh turnId fallbackText (hy_timestamp h1)) h1
                in h2\<lparr>hy_timestamp := hy_timestamp h2 + 1,
                      hy_importedTurnItemCount := hy_importedTurnItemCount h2 + 1,
                      hy_importedItemCount := hy_importedItemCount h2 + 1\<rparr>)
      | Some item \<Rightarrow>
          (let (fresh, h1) = (case getString (jget item ''id'') of
                                None \<Rightarrow> draw h
                              | Some s \<Rightarrow> (s, h));
               mappedItems = mapCodexItem fresh item turnId (hy_timestamp h1);
               h2 = h1\<lparr>hy_timestamp := hy_timestamp h1 + 1\<rparr>
           in if mappedItems = [] then h2
              else emitMapped machineId threadId turnId mappedItems h2))"

fun replayItems :: "string \<Rightarrow> string \<Rightarrow> string \<Rightarrow> json list \<Rightarrow> hydration \<Rightarrow> hydration" where
  "replayItems machineId threadId turnId [] h = h"
| "replayItems machineId threadId turnId (rawItem # rawItems) h =
     replayItems machineId threadId turnId rawItems (replayItem machineId threadId turnId rawItem h)"

fun statusName :: "turn_status \<Rightarrow> string" where
  "statusName TurnRunning = ''running''"
| "statusName TurnCompleted = ''completed''"
| "statusName TurnFailed = ''failed''"
| "statusName TurnInterrupted = ''interrupted''"

text \<open>The object \<^verbatim>\<open>{method: "turn/completed", params: {status}}\<close>.\<close>

definition turnCompletedNotice :: "turn_status \<Rightarrow> json" where
  "turnCompletedNotice st =
     JObj [(''method'', JStr ''turn/completed''),
           (''params'', JObj [(''status'', JStr (statusName st))])]"

text \<open>The body of the loop over \<^verbatim>\<open>turns\<close>.\<close>

definition hydrateTurn :: "string \<Rightarrow> string \<Rightarrow> json \<Rightarrow> hydration \<Rightarrow> hydration" where
  "hydrateTurn machineId threadId turn h =
     (let (turnId, h0) = (case getString (jget turn ''id'') of
                            None \<Rightarrow> draw h
                          | Some s \<Rightarrow> (s, h));
          rawItems = extractItemsFromTurn turn;
          h1 = replayItems machineId threadId turnId rawItems
                 (h0\<lparr>hy_importedTurnItemCount := 0, hy_hasRunningActivity := False\<rparr>)
      in case inferHydratedTurnLifecycleStatus turn
                (hy_importedTurnItemCount h1) (hy_hasRunningActivity h1) of
           None \<Rightarrow> h1
         | Some turnLifecycleStatus \<Rightarrow>
             (let (fresh, h2) = draw h1;
                  h3 = upsert machineId threadId turnId
                         (Plan fresh turnId (stringify (turnCompletedNotice turnLifecycleStatus))
                            (hy_timestamp h2)) h2
              in h3\<lparr>hy_timestamp := hy_timestamp h3 + 1,
                    hy_importedItemCount := hy_importedItemCount h3 + 1\<rparr>))"

fun hydrateTurns :: "string \<Rightarrow> string \<Rightarrow> json list \<Rightarrow> hydration \<Rightarrow> hydration" where
  "hydrateTurns machineId threadId [] h = h"
| "hydrateTurns machineId threadId (turn # turns) h =
     hydrateTurns machineId threadId turns (hydrateTurn machineId threadId turn h)"

text \<open>
  \<^verbatim>\<open>DurangoBridge.hydrateThreadHistory\<close> from the response of \<^verbatim>\<open>thread/read\<close> on; \<open>now\<close> is
  the reading of \<^verbatim>\<open>Date.now()\<close>. It returns \<^verbatim>\<open>importedItemCount\<close> and the bridge.
\<close>

definition startTimestamp :: "int \<Rightarrow> json list \<Rightarrow> int" where
  "startTimestamp now turns = now - max 1 (int (length turns) * 100)"

definition hydrateResponse :: "string \<Rightarrow> int \<Rightarrow> string \<Rightarrow> json \<Rightarrow> bridge \<Rightarrow> hydration" where
  "hydrateResponse machineId now threadId response b =
     (let (turns, d) = extractTurnsFromThreadReadResponse response (draws b)
      in hydrateTurns machineId threadId turns
           \<lparr>hy_bridge = b\<lparr>draws := d\<rparr>,
            hy_timestamp = startTimestamp now turns,
            hy_importedItemCount = 0,
            hy_importedTurnItemCount = 0,
            hy_hasRunningActivity = False\<rparr>)"

section \<open>Observations on the wire\<close>

fun itemTimestamp :: "thread_item \<Rightarrow> int" where
  "itemTimestamp (UserMessage i t x ts) = ts"
| "itemTimestamp (AgentMessage i t x ts) = ts"
| "itemTimestamp (Reasoning i t x ts) = ts"
| "itemTimestamp (CommandExecution i t c w st out ex ts) = ts"
| "itemTimestamp (FileChange i t p d ts) = ts"
| "itemTimestamp (Plan i t x ts) = ts"

fun isFileChange :: "thread_item \<Rightarrow> bool" where
  "isFileChange (FileChange i t p d ts) = True"
| "isFileChange _ = False"

text \<open>The items of the \<^verbatim>\<open>event.upsert\<close> frames among some frames, in order.\<close>

fun upsertItems :: "client_message list \<Rightarrow> thread_item list" where
  "upsertItems [] = []"
| "upsertItems (EventUpsert r m t item # ms) = item # upsertItems ms"
| "upsertItems (_ # ms) = upsertItems ms"

text \<open>The acks among some frames, in order: status and error of each.\<close>

fun ackTrail :: "client_message list \<Rightarrow> (ack_status \<times> (string \<times> string) option) list" where
  "ackTrail [] = []"
| "ackTrail (DispatchAck r m status payload error # ms) = (status, error) # ackTrail ms"
| "ackTrail (_ # ms) = ackTrail ms"

text \<open>The frames a step has put on the wire: those after the frames that were there.\<close>

definition framesSince :: "bridge \<Rightarrow> bridge \<Rightarrow> client_message list" where
  "framesSince before after = drop (length (wire before)) (wire after)"

text \<open>
  The turn identifier \<^verbatim>\<open>hydrateThreadHistory\<close> uses for a turn, and the state in which the
  replay of the turn's items ends.
\<close>

definition turnIdOf :: "json \<Rightarrow> hydration \<Rightarrow> string" where
  "turnIdOf turn h = (case getString (jget turn ''id'') of None \<Rightarrow> fst (draw h) | Some s \<Rightarrow> s)"

definition afterReplay :: "string \<Rightarrow> string \<Rightarrow> json \<Rightarrow> hydration \<Rightarrow> hydration" where
  "afterReplay machineId threadId turn h =
     replayItems machineId threadId (turnIdOf turn h) (extractItemsFromTurn turn)
       ((case getString (jget turn ''id'') of None \<Rightarrow> snd (draw h) | Some s \<Rightarrow> h)
          \<lparr>hy_importedTurnItemCount := 0, hy_hasRunningActivity := False\<rparr>)"





text \<open>The items one raw entry of a turn puts on the wire when the socket is open.\<close>

definition replayOut :: "string \<Rightarrow> json \<Rightarrow> hydration \<Rightarrow> thread_item list" where
  "replayOut turnId rawItem h =
     (case asObject (Some rawItem) of
        None \<Rightarrow>
          (let t = trim (extractText rawItem);
               fallbackText = (if t \<noteq> [] then t else stringify rawItem)
           in if fallbackText = [] then []
              else [Plan (randomUUID (draws (hy_bridge h))) turnId fallbackText (hy_timestamp h)])
      | Some item \<Rightarrow>
          mapCodexItem
            (case getString (jget item ''id'') of None \<Rightarrow> randomUUID (draws (hy_bridge h)) | Some s \<Rightarrow> s)
            item turnId (hy_timestamp h))"

text \<open>
  The order in which two emitted items play back: the earlier one has the smaller
  timestamp, or both are file changes with the same timestamp.
\<close>

definition playbackOrdered :: "thread_item \<Rightarrow> thread_item \<Rightarrow> bool" where
  "playbackOrdered x y =
     (itemTimestamp x < itemTimestamp y \<or>
      (itemTimestamp x = itemTimestamp y \<and> isFileChange x \<and> isFileChange y))"

text \<open>
  A stretch of a hydration pass from \<open>h\<close> to \<open>h'\<close>: it leaves the socket as it is and only
  appends frames (none unless the socket is open, and no ack), whose items are in playback order and stamped from
  the running timestamp of \<open>h\<close> up to, not including, that of \<open>h'\<close>.
\<close>

definition advances :: "hydration \<Rightarrow> hydration \<Rightarrow> bool" where
  "advances h h' =
     (\<exists>out. wire (hy_bridge h') = wire (hy_bridge h) @ out \<and>
            ws (hy_bridge h') = ws (hy_bridge h) \<and>
            (if ws (hy_bridge h) = Some OPEN then ackTrail out = [] else out = []) \<and>
            hy_timestamp h \<le> hy_timestamp h' \<and>
            sorted_wrt playbackOrdered (upsertItems out) \<and>
            list_all (\<lambda>x. hy_timestamp h \<le> itemTimestamp x \<and> itemTimestamp x < hy_timestamp h')
              (upsertItems out))"

section \<open>Forwarding agent notifications\<close>

text \<open>
  \<^verbatim>\<open>extractThreadId\<close>, \<^verbatim>\<open>extractThreadTitle\<close> and \<^verbatim>\<open>extractTurnId\<close> are the same walk over a
  queue with different probes and different keys to descend into.
\<close>

datatype search = ThreadIdSearch | ThreadTitleSearch | TurnIdSearch

text \<open>\<^verbatim>\<open>getString(object.a) ?? getString(object.b) ?? ...\<close>: the first key that holds a string.\<close>

fun firstString :: "json \<Rightarrow> string list \<Rightarrow> string option" where
  "firstString object [] = None"
| "firstString object (k # ks) =
     (case getString (jget object k) of Some s \<Rightarrow> Some s | None \<Rightarrow> firstString object ks)"

fun probe :: "search \<Rightarrow> json \<Rightarrow> string option" where
  "probe ThreadIdSearch object =
     (case firstString object [''threadId'', ''thread_id''] of
        Some s \<Rightarrow> (if s \<noteq> [] then Some s else None)
      | None \<Rightarrow> None)"
| "probe ThreadTitleSearch object =
     (case firstString object [''title'', ''threadTitle'', ''thread_title'', ''name''] of
        Some s \<Rightarrow> (if s \<noteq> [] \<and> trim s \<noteq> [] then Some (trim s) else None)
      | None \<Rightarrow> None)"
| "probe TurnIdSearch object =
     (case firstString object [''turnId'', ''turn_id''] of
        Some s \<Rightarrow> (if s \<noteq> [] then Some s else None)
      | None \<Rightarrow> None)"

text \<open>\<^verbatim>\<open>if (object.key) queue.push(object.key)\<close> and \<^verbatim>\<open>queue.push(...object.items)\<close>.\<close>

definition pushTruthy :: "json \<Rightarrow> string \<Rightarrow> json list" where
  "pushTruthy object k =
     (case jget object k of None \<Rightarrow> [] | Some v \<Rightarrow> if truthy (Some v) then [v] else [])"

definition pushElements :: "json \<Rightarrow> string \<Rightarrow> json list" where
  "pushElements object k = (case jget object k of Some (JArr xs) \<Rightarrow> xs | _ \<Rightarrow> [])"

fun children :: "search \<Rightarrow> json \<Rightarrow> json list" where
  "children ThreadIdSearch object =
     pushTruthy object ''turn'' @ pushTruthy object ''item'' @ pushTruthy object ''params'' @
     pushElements object ''items''"
| "children ThreadTitleSearch object =
     pushTruthy object ''thread'' @ pushTruthy object ''item'' @ pushTruthy object ''params'' @
     pushElements object ''items''"
| "children TurnIdSearch object =
     pushTruthy object ''turn'' @ pushTruthy object ''item'' @ pushTruthy object ''params''"

lemma pushTruthy_weight:
  "queue_weight (pushTruthy (JObj kvs) k) \<le> (case map_of kvs k of None \<Rightarrow> 0 | Some v \<Rightarrow> Suc (size v))"
  by (simp add: pushTruthy_def queue_weight_def split: option.splits)

lemma sum_list_Suc_size:
  "sum_list (map (\<lambda>j. Suc (size j)) (xs :: json list)) = sum_list (map size xs) + length xs"
  by (induction xs) simp_all

lemma pushElements_weight:
  "queue_weight (pushElements (JObj kvs) k) \<le> (case map_of kvs k of None \<Rightarrow> 0 | Some v \<Rightarrow> Suc (size v))"
  by (simp add: pushElements_def queue_weight_def size_list_conv_sum_list sum_list_Suc_size
      split: option.splits json.splits)

lemma children_weight: "queue_weight (children tag object) \<le> size object"
proof (cases object)
  case (JObj kvs)
  let ?w = "\<lambda>k. case map_of kvs k of None \<Rightarrow> 0 | Some v \<Rightarrow> Suc (size v)"
  have four: "?w a + ?w b + ?w c + ?w d \<le> size_list (size_prod (\<lambda>_. 0) size) kvs"
    if "distinct [a, b, c, d]" for a b c d
    using lookup_weight_le [OF that, of kvs] by simp
  have three: "?w a + ?w b + ?w c \<le> size_list (size_prod (\<lambda>_. 0) size) kvs"
    if "distinct [a, b, c]" for a b c
    using lookup_weight_le [OF that, of kvs] by simp
  show ?thesis
  proof (cases tag)
    case ThreadIdSearch
    show ?thesis
      using four [of "''turn''" "''item''" "''params''" "''items''"]
        pushTruthy_weight [of kvs "''turn''"] pushTruthy_weight [of kvs "''item''"]
        pushTruthy_weight [of kvs "''params''"] pushElements_weight [of kvs "''items''"]
      by (simp add: JObj ThreadIdSearch queue_weight_append)
  next
    case ThreadTitleSearch
    show ?thesis
      using four [of "''thread''" "''item''" "''params''" "''items''"]
        pushTruthy_weight [of kvs "''thread''"] pushTruthy_weight [of kvs "''item''"]
        pushTruthy_weight [of kvs "''params''"] pushElements_weight [of kvs "''items''"]
      by (simp add: JObj ThreadTitleSearch queue_weight_append)
  next
    case TurnIdSearch
    show ?thesis
      using three [of "''turn''" "''item''" "''params''"]
        pushTruthy_weight [of kvs "''turn''"] pushTruthy_weight [of kvs "''item''"]
        pushTruthy_weight [of kvs "''params''"]
      by (simp add: JObj TurnIdSearch queue_weight_append)
  qed
qed (cases tag; simp add: pushTruthy_def pushElements_def queue_weight_def)+

function searchLoop :: "search \<Rightarrow> json list \<Rightarrow> string option" where
  "searchLoop tag [] = None"
| "searchLoop tag (current # queue) =
     (case asObject (Some current) of
        None \<Rightarrow> searchLoop tag queue
      | Some object \<Rightarrow>
          (case probe tag object of
             Some found \<Rightarrow> Some found
           | None \<Rightarrow> searchLoop tag (queue @ children tag object)))"
  by pat_completeness auto
termination
proof (relation "measure (\<lambda>(tag, q). queue_weight q)")
  show "wf (measure (\<lambda>(tag, q). queue_weight q))" by simp
next
  fix tag :: search and current :: json and queue :: "json list"
  show "((tag, queue), tag, current # queue) \<in> measure (\<lambda>(tag, q). queue_weight q)"
    by (simp add: queue_weight_def)
next
  fix tag :: search and current :: json and queue :: "json list" and object :: json
  assume "asObject (Some current) = Some object"
  then have "object = current" by (cases current) auto
  then show "((tag, queue @ children tag object), tag, current # queue)
               \<in> measure (\<lambda>(tag, q). queue_weight q)"
    using children_weight [of tag current] by (simp add: queue_weight_append) (simp add: queue_weight_def)
qed

text \<open>The queue starts with \<^verbatim>\<open>params\<close>, which may be \<^verbatim>\<open>undefined\<close>.\<close>

definition search :: "search \<Rightarrow> json option \<Rightarrow> string option" where
  "search tag params = (case params of None \<Rightarrow> None | Some p \<Rightarrow> searchLoop tag [p])"

definition extractThreadId :: "json option \<Rightarrow> string option" where
  "extractThreadId params = search ThreadIdSearch params"

definition extractThreadTitle :: "json option \<Rightarrow> string option" where
  "extractThreadTitle params = search ThreadTitleSearch params"

definition extractTurnId :: "json option \<Rightarrow> string option" where
  "extractTurnId params = search TurnIdSearch params"

text \<open>\<^verbatim>\<open>String.prototype.includes\<close>.\<close>

fun str_includes :: "string \<Rightarrow> string \<Rightarrow> bool" where
  "str_includes [] sub = (sub = [])"
| "str_includes (c # cs) sub = (prefix sub (c # cs) \<or> str_includes cs sub)"

text \<open>\<^verbatim>\<open>randomUUID()\<close> on the bridge.\<close>

definition drawId :: "bridge \<Rightarrow> string \<times> bridge" where
  "drawId b = (randomUUID (draws b), b\<lparr>draws := Suc (draws b)\<rparr>)"

text \<open>\<^verbatim>\<open>this.mapCodexItem(rawItem, turnId)\<close> with the default timestamp \<^verbatim>\<open>Date.now()\<close>.\<close>

definition mapLive :: "int \<Rightarrow> json \<Rightarrow> string \<Rightarrow> bridge \<Rightarrow> thread_item list \<times> bridge" where
  "mapLive now rawItem turnId b =
     (case getString (jget rawItem ''id'') of
        Some s \<Rightarrow> (mapCodexItem s rawItem turnId now, b)
      | None \<Rightarrow> (let (fresh, b1) = drawId b in (mapCodexItem fresh rawItem turnId now, b1)))"

text \<open>The text of the plan item for a turn that did not complete.\<close>

definition turnEndedText :: "string \<Rightarrow> string option \<Rightarrow> string" where
  "turnEndedText status errorMessage =
     ''Turn ended with status '' @ [CHR 0x22] @ status @ [CHR 0x22] @
     (case errorMessage of
        None \<Rightarrow> []
      | Some m \<Rightarrow> if m \<noteq> [] then '': '' @ m else []) @ ''.''"

text \<open>
  The branch of \<^verbatim>\<open>forwardCodexNotification\<close> on the method: \<open>None\<close> is \<^verbatim>\<open>return\<close>, otherwise
  the \<^verbatim>\<open>items\<close> so far.
\<close>

definition itemsForMethod ::
  "int \<Rightarrow> string \<Rightarrow> json option \<Rightarrow> string \<Rightarrow> bridge \<Rightarrow> (thread_item list \<times> bridge) option" where
  "itemsForMethod now lowerMethod params turnId b =
     (let envelope = asObject params;
          rawItem = asObject (oprop envelope ''item'')
      in
      if lowerMethod = ''item/started'' then
        (case rawItem of
           None \<Rightarrow> None
         | Some ri \<Rightarrow>
             (let itemType = (case getString (jget ri ''type'') of None \<Rightarrow> [] | Some s \<Rightarrow> toLowerCase s)
              in if itemType = ''commandexecution'' \<or> itemType = ''command_execution''
                 then Some (mapLive now ri turnId b)
                 else None))
      else if lowerMethod = ''item/completed'' then
        (case rawItem of
           None \<Rightarrow> Some ([], b)
         | Some ri \<Rightarrow> Some (mapLive now ri turnId b))
      else if lowerMethod = ''turn/completed'' then
        (let status = (case getString (oprop envelope ''status'') of
                         None \<Rightarrow> ''completed''
                       | Some s \<Rightarrow> toLowerCase s);
             errorMessage = getString (oprop (asObject (oprop envelope ''error'')) ''message'')
         in if status \<noteq> ''completed'' \<and> status \<noteq> ''success''
            then (let (fresh, b1) = drawId b
                  in Some ([Plan fresh turnId (turnEndedText status errorMessage) now], b1))
            else Some ([], b))
      else if lowerMethod = ''thread/started'' \<or> lowerMethod = ''turn/started'' \<or>
              str_includes lowerMethod ''delta'' \<or> str_includes lowerMethod ''updated''
      then None
      else Some ([], b))"

text \<open>\<^verbatim>\<open>JSON.stringify({ method, params })\<close>: an \<^verbatim>\<open>undefined\<close> member is left out.\<close>

definition notificationJson :: "string \<Rightarrow> json option \<Rightarrow> json" where
  "notificationJson method params =
     JObj ((''method'', JStr method) # (case params of None \<Rightarrow> [] | Some p \<Rightarrow> [(''params'', p)]))"

fun sendItems :: "string \<Rightarrow> string \<Rightarrow> string \<Rightarrow> thread_item list \<Rightarrow> bridge \<Rightarrow> bridge" where
  "sendItems machineId threadId turnId [] b = b"
| "sendItems machineId threadId turnId (item # items) b =
     sendItems machineId threadId turnId items (send (EventUpsert turnId machineId threadId item) b)"

text \<open>\<^verbatim>\<open>DurangoBridge.forwardCodexNotification\<close>.\<close>

definition forwardCodexNotification :: "string \<Rightarrow> int \<Rightarrow> string \<Rightarrow> json option \<Rightarrow> bridge \<Rightarrow> bridge" where
  "forwardCodexNotification machineId now method params b =
     (let lowerMethod = toLowerCase method in
      case extractThreadId params of
        None \<Rightarrow> b
      | Some codexThreadId \<Rightarrow>
          (case threadBindings b codexThreadId of
             None \<Rightarrow> b
           | Some durangoThreadId \<Rightarrow>
               if durangoThreadId = [] then b
               else if prefix ''thread/'' lowerMethod \<and>
                       (str_includes lowerMethod ''updated'' \<or> str_includes lowerMethod ''renamed'' \<or>
                        str_includes lowerMethod ''title'')
               then (case extractThreadTitle params of
                       None \<Rightarrow> b
                     | Some title \<Rightarrow> send (ThreadUpdate machineId durangoThreadId title) b)
               else
                 (let (turnId, b1) = (case extractTurnId params of
                                        Some t \<Rightarrow> (t, b)
                                      | None \<Rightarrow> drawId b)
                  in case itemsForMethod now lowerMethod params turnId b1 of
                       None \<Rightarrow> b1
                     | Some (items, b2) \<Rightarrow>
                         (let (items', b3) =
                                (if items = []
                                 then (let (fresh, b3) = drawId b2
                                       in ([Plan fresh turnId
                                              (stringify (notificationJson method params)) now], b3))
                                 else (items, b2))
                          in sendItems machineId durangoThreadId turnId items' b3))))"

section \<open>Paths (\<^verbatim>\<open>node:path\<close> on POSIX)\<close>

text \<open>The segments of a path between its slashes; there is always at least one.\<close>

fun splitSlash :: "string \<Rightarrow> string list" where
  "splitSlash [] = [[]]"
| "splitSlash (c # cs) =
     (if c = CHR ''/'' then [] # splitSlash cs
      else (case splitSlash cs of [] \<Rightarrow> [[c]] | s # ss \<Rightarrow> (c # s) # ss))"

text \<open>
  One segment in \<^verbatim>\<open>normalizeString\<close>: empty segments and \<^verbatim>\<open>.\<close> are skipped, \<^verbatim>\<open>..\<close> removes the
  segment before it (or stays, above the root of a relative path).
\<close>

definition segStep :: "bool \<Rightarrow> string list \<Rightarrow> string \<Rightarrow> string list" where
  "segStep allowAboveRoot acc seg =
     (if seg = [] \<or> seg = ''.'' then acc
      else if seg = ''..'' then
        (if acc \<noteq> [] \<and> last acc \<noteq> ''..'' then butlast acc
         else if allowAboveRoot then acc @ [''..'']
         else acc)
      else acc @ [seg])"

definition normalizeString :: "bool \<Rightarrow> string \<Rightarrow> string" where
  "normalizeString allowAboveRoot p =
     join_with ''/'' (foldl (segStep allowAboveRoot) [] (splitSlash p))"

definition isAbsolute :: "string \<Rightarrow> bool" where
  "isAbsolute p = (case p of [] \<Rightarrow> False | c # cs \<Rightarrow> c = CHR ''/'')"

definition path_normalize :: "string \<Rightarrow> string" where
  "path_normalize p =
     (if p = [] then ''.''
      else
        let trailingSeparator = (last p = CHR ''/'');
            q = normalizeString (\<not> isAbsolute p) p
        in if q = [] then (if isAbsolute p then ''/'' else if trailingSeparator then ''./'' else ''.'')
           else (if isAbsolute p then ''/'' else []) @ q @ (if trailingSeparator then ''/'' else []))"

definition path_join :: "string list \<Rightarrow> string" where
  "path_join args =
     (let parts = filter (\<lambda>a. a \<noteq> []) args
      in if parts = [] then ''.'' else path_normalize (join_with ''/'' parts))"

text \<open>\<^verbatim>\<open>path.resolve(p)\<close> with one argument; \<open>processCwd\<close> is \<^verbatim>\<open>process.cwd()\<close>.\<close>

definition path_resolve :: "string \<Rightarrow> string \<Rightarrow> string" where
  "path_resolve processCwd p =
     (if isAbsolute p then ''/'' @ normalizeString False (p @ ''/'')
      else
        let resolvedPath = processCwd @ ''/'' @ (if p = [] then [] else p @ ''/'')
        in if isAbsolute processCwd then ''/'' @ normalizeString False resolvedPath
           else (let r = normalizeString True resolvedPath in if r \<noteq> [] then r else ''.''))"

definition path_basename :: "string \<Rightarrow> string" where
  "path_basename p =
     rev (takeWhile (\<lambda>c. c \<noteq> CHR ''/'') (dropWhile (\<lambda>c. c = CHR ''/'') (rev p)))"

text \<open>
  Paths in the words of the specification. An absolute path leads from the root through
  directories: a walk along its segments stays where it is at an empty segment and at
  \<^verbatim>\<open>.\<close>, steps back to the directory before at \<^verbatim>\<open>..\<close> (the root is its own parent), and
  steps into the directory of that name at any other segment. A path that does not begin
  with a slash is placed under the working directory of the process first. A plain
  segment names one directory entry, and the absolute path through some directories is
  the slash followed by their names with slashes between.
\<close>

fun walk :: "string list \<Rightarrow> string list \<Rightarrow> string list" where
  "walk passed [] = rev passed"
| "walk passed (seg # segs) =
     (if seg = [] \<or> seg = ''.'' then walk passed segs
      else if seg = ''..'' then walk (tl passed) segs
      else walk (seg # passed) segs)"

definition directories :: "string \<Rightarrow> string list" where
  "directories p = walk [] (splitSlash p)"

definition placed :: "string \<Rightarrow> string \<Rightarrow> string" where
  "placed procCwd p = (if take 1 p = ''/'' then p else procCwd @ ''/'' @ p)"

definition plainSegment :: "string \<Rightarrow> bool" where
  "plainSegment s = (s \<noteq> [] \<and> CHR ''/'' \<notin> set s \<and> s \<noteq> ''.'' \<and> s \<noteq> ''..'')"

definition absPath :: "string list \<Rightarrow> string" where
  "absPath segs = ''/'' @ join_with ''/'' segs"

section \<open>Attachments\<close>

datatype attachment_kind = ImageKind | FileKind

record attachment =
  at_id :: string
  at_name :: string
  at_mimeType :: string
  at_contentBase64 :: string
  at_kind :: attachment_kind

datatype turn_input =
    TextInput string
  | ImageInput string
  | LocalImageInput string
  | MentionInput string string
  | SkillInput string string

datatype exn = Error string | NonError

text \<open>The character class \<^verbatim>\<open>[a-zA-Z0-9._-]\<close>.\<close>

definition safeChar :: "char \<Rightarrow> bool" where
  "safeChar c =
     (let n = (of_char c :: nat)
      in (97 \<le> n \<and> n \<le> 122) \<or> (65 \<le> n \<and> n \<le> 90) \<or> (48 \<le> n \<and> n \<le> 57) \<or>
         n = 46 \<or> n = 95 \<or> n = 45)"

text \<open>\<^verbatim>\<open>DurangoBridge.sanitizeAttachmentName\<close>.\<close>

definition sanitizeAttachmentName :: "string \<Rightarrow> string" where
  "sanitizeAttachmentName rawName =
     (let baseName = path_basename (if rawName \<noteq> [] then rawName else ''attachment'');
          sanitized = map (\<lambda>c. if safeChar c then c else CHR ''_'') baseName
      in if length sanitized > 120 then take 120 sanitized
         else if sanitized \<noteq> [] then sanitized else ''attachment'')"

text \<open>\<^verbatim>\<open>String(n).padStart(2, "0")\<close>.\<close>

definition padStart2 :: "string \<Rightarrow> string" where
  "padStart2 s = replicate (2 - length s) (CHR ''0'') @ s"

text \<open>\<^verbatim>\<open>`${String(index + 1).padStart(2, "0")}-${safeName}`\<close>.\<close>

definition attachmentFileName :: "nat \<Rightarrow> attachment \<Rightarrow> string" where
  "attachmentFileName index a =
     padStart2 (show_nat (index + 1)) @ ''-'' @ sanitizeAttachmentName (at_name a)"

text \<open>
  What the operations ask of the agent server, the file system and the process: each call
  either returns or throws. \<^verbatim>\<open>writeFile\<close> may fail depending on the path.
\<close>

record world =
  processCwd :: string
  tmpdir :: string
  mkdirResult :: "exn option"
  writeFileResult :: "string \<Rightarrow> exn option"
  threadStartResult :: "exn + string"
  turnStartResult :: "exn + unit"
  threadReadResult :: "exn + json"
  listModelsResult :: "exn + json"
  turnInterruptResult :: "exn + unit"

text \<open>
  The loop of \<^verbatim>\<open>materializeAttachmentInputs\<close> from position \<open>index\<close> on: the files written so
  far (path and base64 content), and the inputs or the error that ended the loop.
\<close>

fun materializeLoop ::
  "world \<Rightarrow> string \<Rightarrow> nat \<Rightarrow> attachment list \<Rightarrow> (string \<times> string) list \<times> (exn + turn_input list)" where
  "materializeLoop w attachmentDir index [] = ([], Inr [])"
| "materializeLoop w attachmentDir index (a # as) =
     (let absolutePath = path_join [attachmentDir, attachmentFileName index a]
      in case writeFileResult w absolutePath of
           Some e \<Rightarrow> ([], Inl e)
         | None \<Rightarrow>
             (let (files, r) = materializeLoop w attachmentDir (index + 1) as;
                  input = (if at_kind a = ImageKind then LocalImageInput absolutePath
                           else MentionInput (at_name a) absolutePath)
              in ((absolutePath, at_contentBase64 a) # files,
                  (case r of Inl e \<Rightarrow> Inl e | Inr inputs \<Rightarrow> Inr (input # inputs)))))"

text \<open>\<^verbatim>\<open>args.cwd ? path.resolve(args.cwd) : os.tmpdir()\<close> and the directory of the uploads.\<close>

definition baseDirOf :: "world \<Rightarrow> string option \<Rightarrow> string" where
  "baseDirOf w cwd =
     (case cwd of
        None \<Rightarrow> tmpdir w
      | Some c \<Rightarrow> if c \<noteq> [] then path_resolve (processCwd w) c else tmpdir w)"

definition attachmentDirOf :: "world \<Rightarrow> string option \<Rightarrow> string \<Rightarrow> string" where
  "attachmentDirOf w cwd requestId =
     path_join [baseDirOf w cwd, ''.durango'', ''uploads'', requestId]"

text \<open>\<^verbatim>\<open>DurangoBridge.materializeAttachmentInputs\<close>.\<close>

definition materializeAttachmentInputs ::
  "world \<Rightarrow> string option \<Rightarrow> string \<Rightarrow> attachment list option \<Rightarrow>
     (string \<times> string) list \<times> (exn + turn_input list)" where
  "materializeAttachmentInputs w cwd requestId attachments =
     (let as = (case attachments of None \<Rightarrow> [] | Some xs \<Rightarrow> xs)
      in if as = [] then ([], Inr [])
         else (case mkdirResult w of
                 Some e \<Rightarrow> ([], Inl e)
               | None \<Rightarrow> materializeLoop w (attachmentDirOf w cwd requestId) 0 as))"

text \<open>\<^verbatim>\<open>DurangoBridge.buildTurnInput\<close>.\<close>

definition buildTurnInput ::
  "world \<Rightarrow> string \<Rightarrow> string \<Rightarrow> string option \<Rightarrow> attachment list option \<Rightarrow> exn + turn_input list" where
  "buildTurnInput w prompt requestId cwd attachments =
     (let p = trim prompt;
          input = (if p \<noteq> [] then [TextInput p] else [])
      in case snd (materializeAttachmentInputs w cwd requestId attachments) of
           Inl e \<Rightarrow> Inl e
         | Inr attachmentInputs \<Rightarrow>
             if input @ attachmentInputs = []
             then Inl (Error ''turn/start requires prompt text or at least one attachment.'')
             else Inr (input @ attachmentInputs))"

text \<open>
  The file name of an attachment in the words of the specification, \<^verbatim>\<open>NN-safeName\<close>. The
  base name of a path is its last segment that is not empty. The safe name is the base
  name with every character outside \<^verbatim>\<open>[A-Za-z0-9._-]\<close> replaced by an underscore, cut to 120
  characters, and \<^verbatim>\<open>attachment\<close> when nothing is left. \<^verbatim>\<open>NN\<close> is the position counted from
  one, in decimal with a zero before a single digit.
\<close>

definition specBaseName :: "string \<Rightarrow> string" where
  "specBaseName p =
     (case rev (filter (\<lambda>seg. seg \<noteq> []) (splitSlash p)) of [] \<Rightarrow> [] | name # before \<Rightarrow> name)"

definition specSafeName :: "string \<Rightarrow> string" where
  "specSafeName rawName =
     (let replaced = map (\<lambda>c. if safeChar c then c else CHR ''_'') (specBaseName rawName);
          truncated = take 120 replaced
      in if truncated = [] then ''attachment'' else truncated)"

definition specPosition :: "nat \<Rightarrow> string" where
  "specPosition index =
     (if index + 1 < 10 then CHR ''0'' # show_nat (index + 1) else show_nat (index + 1))"

definition specFileName :: "nat \<Rightarrow> attachment \<Rightarrow> string" where
  "specFileName index a = specPosition index @ ''-'' @ specSafeName (at_name a)"

text \<open>
  The base directory in the words of the specification: the cwd of the request, or the
  temporary directory when the request has none.
\<close>

definition specBase :: "world \<Rightarrow> string option \<Rightarrow> string" where
  "specBase w cwd =
     (case cwd of
        None \<Rightarrow> tmpdir w
      | Some c \<Rightarrow> if c = [] then tmpdir w else placed (processCwd w) c)"

text \<open>
  The file-name pattern of the specification, \<^verbatim>\<open>^\d{2}-[A-Za-z0-9._-]{1,120}$\<close>, as a
  predicate.
\<close>

definition isDigit :: "char \<Rightarrow> bool" where
  "isDigit c = (48 \<le> (of_char c :: nat) \<and> (of_char c :: nat) \<le> 57)"

fun matchesPattern :: "string \<Rightarrow> bool" where
  "matchesPattern (d1 # d2 # dash # name) =
     (isDigit d1 \<and> isDigit d2 \<and> dash = CHR ''-'' \<and> name \<noteq> [] \<and> length name \<le> 120 \<and>
      list_all safeChar name)"
| "matchesPattern _ = False"

section \<open>The dispatch coordinator\<close>

text \<open>
  \<^verbatim>\<open>DispatchAction\<close> with the fields the coordinator's control flow reads; the model,
  effort, approval and sandbox settings are handed to the agent unchanged. \<open>OtherAction\<close>
  is a parsed request whose \<^verbatim>\<open>type\<close> is none of the five.
\<close>

datatype action =
    ThreadStartAction string string string string "attachment list option"
  | ThreadHydrateAction string string string string
  | TurnStartAction string string string string "string option" string "attachment list option"
  | ModelListAction string string
  | TurnInterruptAction string string string string
  | OtherAction string string

fun requestIdOf :: "action \<Rightarrow> string" where
  "requestIdOf (ThreadStartAction r m cwd prompt atts) = r"
| "requestIdOf (ThreadHydrateAction r m threadId codexThreadId) = r"
| "requestIdOf (TurnStartAction r m threadId codexThreadId cwd prompt atts) = r"
| "requestIdOf (ModelListAction r m) = r"
| "requestIdOf (TurnInterruptAction r m threadId codexThreadId) = r"
| "requestIdOf (OtherAction r m) = r"

fun machineIdOf :: "action \<Rightarrow> string" where
  "machineIdOf (ThreadStartAction r m cwd prompt atts) = m"
| "machineIdOf (ThreadHydrateAction r m threadId codexThreadId) = m"
| "machineIdOf (TurnStartAction r m threadId codexThreadId cwd prompt atts) = m"
| "machineIdOf (ModelListAction r m) = m"
| "machineIdOf (TurnInterruptAction r m threadId codexThreadId) = m"
| "machineIdOf (OtherAction r m) = m"

text \<open>\<^verbatim>\<open>DurangoBridge.ack\<close>.\<close>

definition ack ::
  "action \<Rightarrow> ack_status \<Rightarrow> json option \<Rightarrow> (string \<times> string) option \<Rightarrow> bridge \<Rightarrow> bridge" where
  "ack action status payload error b =
     send (DispatchAck (requestIdOf action) (machineIdOf action) status payload error) b"

text \<open>
  \<^verbatim>\<open>CodexAppServerClient.turnStart\<close> as the coordinator calls it, with \<^verbatim>\<open>input\<close> and no
  \<^verbatim>\<open>prompt\<close>.
\<close>

definition turnStart :: "world \<Rightarrow> turn_input list \<Rightarrow> exn + unit" where
  "turnStart w input =
     (if input = [] then Inl (Error ''turn/start requires at least one input item.'')
      else turnStartResult w)"

text \<open>
  The \<^verbatim>\<open>try\<close> block of \<^verbatim>\<open>handleDispatch\<close>: the bridge it leaves, and the error if it threw.
  \<open>configMachineId\<close> is \<^verbatim>\<open>this.config.machineId\<close>.
\<close>

fun dispatchBody :: "world \<Rightarrow> string \<Rightarrow> int \<Rightarrow> action \<Rightarrow> bridge \<Rightarrow> exn option \<times> bridge" where
  "dispatchBody w configMachineId now (ThreadStartAction r m cwd prompt atts) b =
     (let action = ThreadStartAction r m cwd prompt atts;
          b1 = ack action AckRunning None None b
      in case threadStartResult w of
           Inl e \<Rightarrow> (Some e, b1)
         | Inr threadId \<Rightarrow>
             (case buildTurnInput w prompt r (Some cwd) atts of
                Inl e \<Rightarrow> (Some e, b1)
              | Inr input \<Rightarrow>
                  (case turnStart w input of
                     Inl e \<Rightarrow> (Some e, b1)
                   | Inr u \<Rightarrow>
                       (let b2 = b1\<lparr>threadBindings := (threadBindings b1)(threadId \<mapsto> r)\<rparr>
                        in (None,
                            ack action AckCompleted
                              (Some (JObj [(''codexThreadId'', JStr threadId), (''state'', JStr ''started'')]))
                              None b2)))))"
| "dispatchBody w configMachineId now (ThreadHydrateAction r m threadId codexThreadId) b =
     (let action = ThreadHydrateAction r m threadId codexThreadId;
          b1 = ack action AckRunning None None b;
          b2 = b1\<lparr>threadBindings := (threadBindings b1)(codexThreadId \<mapsto> threadId)\<rparr>
      in case threadReadResult w of
           Inl e \<Rightarrow> (Some e, b2)
         | Inr response \<Rightarrow>
             (let h = hydrateResponse configMachineId now threadId response b2
              in (None,
                  ack action AckCompleted
                    (Some (JObj [(''state'', JStr ''hydrated''),
                                 (''importedItemCount'', JNum (int (hy_importedItemCount h)))]))
                    None (hy_bridge h))))"
| "dispatchBody w configMachineId now (TurnStartAction r m threadId codexThreadId cwd prompt atts) b =
     (let action = TurnStartAction r m threadId codexThreadId cwd prompt atts;
          b1 = ack action AckRunning None None b;
          b2 = b1\<lparr>threadBindings := (threadBindings b1)(codexThreadId \<mapsto> threadId)\<rparr>
      in case buildTurnInput w prompt r cwd atts of
           Inl e \<Rightarrow> (Some e, b2)
         | Inr input \<Rightarrow>
             (case turnStart w input of
                Inl e \<Rightarrow> (Some e, b2)
              | Inr u \<Rightarrow>
                  (None, ack action AckCompleted (Some (JObj [(''state'', JStr ''started'')])) None b2)))"
| "dispatchBody w configMachineId now (ModelListAction r m) b =
     (let action = ModelListAction r m;
          b1 = ack action AckRunning None None b
      in case listModelsResult w of
           Inl e \<Rightarrow> (Some e, b1)
         | Inr models \<Rightarrow>
             (None, ack action AckCompleted (Some (JObj [(''models'', models)])) None b1))"
| "dispatchBody w configMachineId now (TurnInterruptAction r m threadId codexThreadId) b =
     (let action = TurnInterruptAction r m threadId codexThreadId;
          b1 = ack action AckRunning None None b
      in case turnInterruptResult w of
           Inl e \<Rightarrow> (Some e, b1)
         | Inr u \<Rightarrow>
             (None, ack action AckCompleted (Some (JObj [(''state'', JStr ''interrupted'')])) None b1))"
| "dispatchBody w configMachineId now (OtherAction r m) b = (None, b)"

text \<open>\<^verbatim>\<open>error instanceof Error ? error.message : "Unknown app-server error"\<close>.\<close>

fun errorMessageOf :: "exn \<Rightarrow> string" where
  "errorMessageOf (Error message) = message"
| "errorMessageOf NonError = ''Unknown app-server error''"

text \<open>\<^verbatim>\<open>DurangoBridge.handleDispatch\<close>.\<close>

definition handleDispatch :: "world \<Rightarrow> string \<Rightarrow> int \<Rightarrow> action \<Rightarrow> bridge \<Rightarrow> bridge" where
  "handleDispatch w configMachineId now action b =
     (let b1 = ack action Accepted None None b
      in case dispatchBody w configMachineId now action b1 of
           (None, b2) \<Rightarrow> b2
         | (Some e, b2) \<Rightarrow>
             ack action AckFailed None (Some (''APP_SERVER_ERROR'', errorMessageOf e)) b2)"

text \<open>Whether the \<^verbatim>\<open>try\<close> block of \<^verbatim>\<open>handleDispatch\<close> throws, and what.\<close>

definition thrownBy :: "world \<Rightarrow> string \<Rightarrow> int \<Rightarrow> action \<Rightarrow> bridge \<Rightarrow> exn option" where
  "thrownBy w configMachineId now action b =
     fst (dispatchBody w configMachineId now action (ack action Accepted None None b))"

fun isOtherAction :: "action \<Rightarrow> bool" where
  "isOtherAction (OtherAction r m) = True"
| "isOtherAction _ = False"

section \<open>Sync bootstrap\<close>

record project =
  pr_id :: string
  pr_machineId :: string
  pr_absolutePath :: string
  pr_name :: string
  pr_gitBranch :: "string option"
  pr_gitRemoteUrl :: "string option"

text \<open>A thread summary as the agent returned it: the members are read with \<^verbatim>\<open>getString\<close> and
  \<^verbatim>\<open>getNumber\<close>.\<close>

record thread_summary =
  su_id :: "json option"
  su_preview :: "json option"
  su_createdAt :: "json option"
  su_updatedAt :: "json option"
  su_cwd :: "json option"

text \<open>\<^verbatim>\<open>DurangoBridge.makeDurangoThreadId\<close>.\<close>

definition makeDurangoThreadId :: "string \<Rightarrow> string" where
  "makeDurangoThreadId codexThreadId = ''codex:'' @ codexThreadId"

text \<open>\<^verbatim>\<open>DurangoBridge.normalizePath\<close>; the pattern \<^verbatim>\<open>/[\\/]+$/\<close> is a run of slashes and
  backslashes at the end.\<close>

definition normalizePath :: "string \<Rightarrow> string \<Rightarrow> string" where
  "normalizePath procCwd input =
     (let resolved = path_resolve procCwd input
      in if length resolved \<le> 1 then resolved
         else rev (dropWhile (\<lambda>c. c = CHR ''/'' \<or> c = CHR 0x5C) (rev resolved)))"

text \<open>\<^verbatim>\<open>withinProject\<close> in \<^verbatim>\<open>findProjectIdForCwd\<close>; \<^verbatim>\<open>path.sep\<close> is the slash.\<close>

definition withinProject :: "string \<Rightarrow> string \<Rightarrow> bool" where
  "withinProject normalizedCwd projectPath =
     (normalizedCwd = projectPath \<or> prefix (projectPath @ ''/'') normalizedCwd)"

text \<open>The loop of \<^verbatim>\<open>findProjectIdForCwd\<close> with \<^verbatim>\<open>bestMatch\<close> and \<^verbatim>\<open>bestPathLength\<close>.\<close>

fun findLoop :: "string \<Rightarrow> string \<Rightarrow> project list \<Rightarrow> project option \<times> int \<Rightarrow> project option \<times> int" where
  "findLoop procCwd normalizedCwd [] best = best"
| "findLoop procCwd normalizedCwd (p # ps) (bestMatch, bestPathLength) =
     (let projectPath = normalizePath procCwd (pr_absolutePath p)
      in if \<not> withinProject normalizedCwd projectPath
         then findLoop procCwd normalizedCwd ps (bestMatch, bestPathLength)
         else if int (length projectPath) > bestPathLength
         then findLoop procCwd normalizedCwd ps (Some p, int (length projectPath))
         else findLoop procCwd normalizedCwd ps (bestMatch, bestPathLength))"

text \<open>\<^verbatim>\<open>DurangoBridge.findProjectIdForCwd\<close>.\<close>

definition findProjectIdForCwd :: "string \<Rightarrow> project list \<Rightarrow> string \<Rightarrow> string option" where
  "findProjectIdForCwd procCwd projects cwd =
     (case fst (findLoop procCwd (normalizePath procCwd cwd) projects (None, - 1)) of
        None \<Rightarrow> None
      | Some p \<Rightarrow> Some (pr_id p))"

text \<open>
  \<^verbatim>\<open>DurangoBridge.titleFromPreview\<close>. Lines are cut at line feeds: a carriage return before
  one is white space, which the trim of each line removes as the pattern \<^verbatim>\<open>/\r?\n/\<close> would.
\<close>

fun splitLines :: "string \<Rightarrow> string list" where
  "splitLines [] = [[]]"
| "splitLines (c # cs) =
     (if c = CHR 0x0A then [] # splitLines cs
      else (case splitLines cs of [] \<Rightarrow> [[c]] | s # ss \<Rightarrow> (c # s) # ss))"

text \<open>\<^verbatim>\<open>replace(/\s+/g, " ")\<close>: \<open>inRun\<close> says that the character before was white space.\<close>

fun collapseFrom :: "bool \<Rightarrow> string \<Rightarrow> string" where
  "collapseFrom inRun [] = []"
| "collapseFrom inRun (c # cs) =
     (if is_ws c then (if inRun then collapseFrom True cs else CHR '' '' # collapseFrom True cs)
      else c # collapseFrom False cs)"

definition collapseSpace :: "string \<Rightarrow> string" where
  "collapseSpace s = collapseFrom False s"

definition titleFromPreview :: "string option \<Rightarrow> string" where
  "titleFromPreview preview =
     (case preview of
        None \<Rightarrow> ''Imported Codex thread''
      | Some p \<Rightarrow>
          if p = [] then ''Imported Codex thread''
          else (case List.find (\<lambda>line. line \<noteq> []) (map trim (splitLines p)) of
                  None \<Rightarrow> ''Imported Codex thread''
                | Some firstLine \<Rightarrow> take 120 (collapseSpace firstLine)))"

definition numberOf :: "int option \<Rightarrow> jsnumber option" where
  "numberOf n = (case n of None \<Rightarrow> None | Some i \<Rightarrow> Some (Finite (of_int i)))"

text \<open>The body of the loop of \<^verbatim>\<open>syncThreads\<close> over the threads of the agent.\<close>

definition syncThread :: "string \<Rightarrow> string \<Rightarrow> int \<Rightarrow> project list \<Rightarrow> thread_summary \<Rightarrow> bridge \<Rightarrow> bridge" where
  "syncThread procCwd configMachineId now projects appThread b =
     (case (getString (su_id appThread), getString (su_cwd appThread)) of
        (Some codexThreadId, Some cwd) \<Rightarrow>
          if codexThreadId = [] \<or> cwd = [] then b
          else
            (case findProjectIdForCwd procCwd projects cwd of
               None \<Rightarrow> b
             | Some projectId \<Rightarrow>
                 if projectId = [] then b
                 else
                   let durangoThreadId = makeDurangoThreadId codexThreadId;
                       b1 = b\<lparr>threadBindings := (threadBindings b)(codexThreadId \<mapsto> durangoThreadId)\<rparr>;
                       createdAt = normalizeTimestamp now (numberOf (getNumber (su_createdAt appThread)));
                       updatedAt = normalizeTimestamp now
                                     (numberOf (case getNumber (su_updatedAt appThread) of
                                                  Some n \<Rightarrow> Some n
                                                | None \<Rightarrow> getNumber (su_createdAt appThread)))
                   in send (ThreadUpsert configMachineId
                              \<lparr>tr_id = durangoThreadId, tr_projectId = projectId,
                               tr_codexThreadId = codexThreadId,
                               tr_title = titleFromPreview (getString (su_preview appThread)),
                               tr_status = ''active'', tr_createdAt = createdAt,
                               tr_updatedAt = updatedAt\<rparr>) b1)
      | _ \<Rightarrow> b)"

fun syncLoop :: "string \<Rightarrow> string \<Rightarrow> int \<Rightarrow> project list \<Rightarrow> thread_summary list \<Rightarrow> bridge \<Rightarrow> bridge" where
  "syncLoop procCwd configMachineId now projects [] b = b"
| "syncLoop procCwd configMachineId now projects (appThread # appThreads) b =
     syncLoop procCwd configMachineId now projects appThreads
       (syncThread procCwd configMachineId now projects appThread b)"

text \<open>
  \<^verbatim>\<open>DurangoBridge.syncThreads\<close>; \<open>listed\<close> is what \<^verbatim>\<open>listThreads\<close> returned or threw.
\<close>

definition syncThreads ::
  "string \<Rightarrow> string \<Rightarrow> int \<Rightarrow> exn + thread_summary list \<Rightarrow> project list \<Rightarrow> bridge \<Rightarrow> bridge" where
  "syncThreads procCwd configMachineId now listed projects b =
     (if projects = [] then b
      else (case listed of
              Inl e \<Rightarrow> b
            | Inr appThreads \<Rightarrow> syncLoop procCwd configMachineId now projects appThreads b))"







section \<open>The JSON-RPC transport\<close>

text \<open>
  What the client does to its callers and its table, in order: a promise resolved or
  rejected (named by its request id), an entry deleted from the pending table, a request
  frame sent, a notification published.
\<close>

datatype effect =
    Resolved string json
  | Rejected string string
  | Deleted string
  | SentRequest string string
  | Notified string

text \<open>
  The fields of \<^verbatim>\<open>CodexAppServerClient\<close> that the correlation uses: the socket, the pending
  table in insertion order (request id and, from the closure of its timer, the method),
  and the request ids whose 30 second timer is armed. \<open>cl_log\<close> records the effects.
\<close>

record client =
  cl_ws :: "ready_state option"
  cl_pending :: "(string \<times> string) list"
  cl_timers :: "(string \<times> string) list"
  cl_log :: "effect list"

text \<open>\<^verbatim>\<open>Map.prototype.set\<close> and \<^verbatim>\<open>Map.prototype.delete\<close> on an insertion-ordered table.\<close>

definition tableSet :: "string \<Rightarrow> string \<Rightarrow> (string \<times> string) list \<Rightarrow> (string \<times> string) list" where
  "tableSet k v t =
     (if k \<in> fst ` set t then map (\<lambda>kv. if fst kv = k then (k, v) else kv) t else t @ [(k, v)])"

definition tableDelete :: "string \<Rightarrow> (string \<times> string) list \<Rightarrow> (string \<times> string) list" where
  "tableDelete k t = filter (\<lambda>kv. fst kv \<noteq> k) t"

definition logged :: "effect list \<Rightarrow> client \<Rightarrow> client" where
  "logged es c = c\<lparr>cl_log := cl_log c @ es\<rparr>"

text \<open>
  \<^verbatim>\<open>CodexAppServerClient.request\<close>; \<open>rid\<close> is the identifier \<^verbatim>\<open>randomUUID()\<close> returned.
\<close>

definition request :: "string \<Rightarrow> string \<Rightarrow> client \<Rightarrow> client" where
  "request rid method c =
     (if cl_ws c = None \<or> cl_ws c \<noteq> Some OPEN
      then logged [Rejected rid ''Codex app-server socket is not open''] c
      else logged [SentRequest rid method]
             (c\<lparr>cl_timers := cl_timers c @ [(rid, method)],
                cl_pending := tableSet rid method (cl_pending c)\<rparr>))"

text \<open>A frame that passed \<^verbatim>\<open>JsonRpcMessageSchema\<close>; the id is already \<^verbatim>\<open>String(message.id)\<close>.\<close>

record rpc_message =
  m_id :: "string option"
  m_method :: "string option"
  m_result :: "json option"
  m_error :: "(int \<times> string) option"

text \<open>The \<^verbatim>\<open>message\<close> handler of \<^verbatim>\<open>bindSocket\<close> on a valid frame.\<close>

definition notify :: "rpc_message \<Rightarrow> client \<Rightarrow> client" where
  "notify message c =
     (case m_method message of
        None \<Rightarrow> c
      | Some method \<Rightarrow> if method \<noteq> [] then logged [Notified method] c else c)"

definition onMessage :: "rpc_message \<Rightarrow> client \<Rightarrow> client" where
  "onMessage message c =
     (case m_id message of
        None \<Rightarrow> notify message c
      | Some rid \<Rightarrow>
          if m_result message \<noteq> None \<or> m_error message \<noteq> None then
            (case map_of (cl_pending c) rid of
               None \<Rightarrow> c
             | Some pendingMethod \<Rightarrow>
                 (let c1 = logged [Deleted rid] (c\<lparr>cl_pending := tableDelete rid (cl_pending c)\<rparr>);
                      c2 = c1\<lparr>cl_timers := tableDelete rid (cl_timers c1)\<rparr>
                  in case m_error message of
                       Some err \<Rightarrow> logged [Rejected rid (snd err)] c2
                     | None \<Rightarrow>
                         (case m_result message of
                            Some result \<Rightarrow> logged [Resolved rid result] c2
                          | None \<Rightarrow> c2)))
          else notify message c)"

text \<open>
  The callback of the timer of request \<open>rid\<close>, 30 seconds after the request; a timer that
  was cleared does not fire.
\<close>

definition onTimeout :: "string \<Rightarrow> client \<Rightarrow> client" where
  "onTimeout rid c =
     (case map_of (cl_timers c) rid of
        None \<Rightarrow> c
      | Some method \<Rightarrow>
          logged [Deleted rid, Rejected rid (''Request timed out: '' @ method)]
            (c\<lparr>cl_timers := tableDelete rid (cl_timers c),
               cl_pending := tableDelete rid (cl_pending c)\<rparr>))"

text \<open>The body of the loop of \<^verbatim>\<open>CodexAppServerClient.stop\<close> over the pending entries.\<close>

definition stopEntry :: "client \<Rightarrow> string \<times> string \<Rightarrow> client" where
  "stopEntry c entry =
     (let rid = fst entry;
          c1 = c\<lparr>cl_timers := tableDelete rid (cl_timers c)\<rparr>;
          c2 = logged [Rejected rid (''Client closed before response: '' @ rid)] c1
      in logged [Deleted rid] (c2\<lparr>cl_pending := tableDelete rid (cl_pending c2)\<rparr>))"

text \<open>\<^verbatim>\<open>CodexAppServerClient.stop\<close>, up to the socket.\<close>

definition stop :: "client \<Rightarrow> client" where
  "stop c = (foldl stopEntry c (cl_pending c))\<lparr>cl_ws := None\<rparr>"

text \<open>The \<^verbatim>\<open>close\<close> handler of \<^verbatim>\<open>bindSocket\<close>.\<close>

definition onClose :: "client \<Rightarrow> client" where
  "onClose c = c\<lparr>cl_ws := None\<rparr>"

text \<open>What happens to a client, and a run of the client from its construction.\<close>

datatype event =
    RequestEvent string string
  | MessageEvent rpc_message
  | TimeoutEvent string
  | OpenEvent
  | CloseEvent
  | StopEvent

fun step :: "client \<Rightarrow> event \<Rightarrow> client" where
  "step c (RequestEvent rid method) = request rid method c"
| "step c (MessageEvent message) = onMessage message c"
| "step c (TimeoutEvent rid) = onTimeout rid c"
| "step c OpenEvent = c\<lparr>cl_ws := Some OPEN\<rparr>"
| "step c CloseEvent = onClose c"
| "step c StopEvent = stop c"

definition newClient :: client where
  "newClient = \<lparr>cl_ws = None, cl_pending = [], cl_timers = [], cl_log = []\<rparr>"

definition run :: "event list \<Rightarrow> client" where
  "run evs = foldl step newClient evs"

fun requestIds :: "event list \<Rightarrow> string list" where
  "requestIds [] = []"
| "requestIds (RequestEvent rid method # evs) = rid # requestIds evs"
| "requestIds (_ # evs) = requestIds evs"

fun signals :: "string \<Rightarrow> effect \<Rightarrow> bool" where
  "signals rid (Resolved i r) = (i = rid)"
| "signals rid (Rejected i m) = (i = rid)"
| "signals rid _ = False"

text \<open>How often the promise of request \<open>rid\<close> was resolved or rejected.\<close>

definition signalCount :: "string \<Rightarrow> effect list \<Rightarrow> nat" where
  "signalCount rid es = length (filter (signals rid) es)"

text \<open>The effects a step has added.\<close>

definition effectsSince :: "client \<Rightarrow> client \<Rightarrow> effect list" where
  "effectsSince before after = drop (length (cl_log before)) (cl_log after)"

text \<open>
  What holds of the client after a run: the pending keys are distinct request ids of the
  run with their timers armed, a pending request has not been signaled, and a request
  that is no longer pending has been signaled once.
\<close>

definition settled :: "event list \<Rightarrow> client \<Rightarrow> bool" where
  "settled evs c =
     (distinct (map fst (cl_pending c)) \<and>
      cl_timers c = cl_pending c \<and>
      set (map fst (cl_pending c)) \<subseteq> set (requestIds evs) \<and>
      (\<forall>rid. signalCount rid (cl_log c) =
             (if rid \<in> set (requestIds evs) \<and> rid \<notin> set (map fst (cl_pending c)) then 1 else 0)))"

section \<open>Verified properties\<close>

subsection \<open>Status normalization (C5)\<close>

lemma toLowerCase_simps:
  "toLowerCase [] = []"
  "toLowerCase (c # cs) = lower_char c # toLowerCase cs"
  by (simp_all add: toLowerCase_def)

text \<open>
  C5, as the claim states it, fails on the code: the turn table also sends \<^verbatim>\<open>pending\<close> (and
  \<^verbatim>\<open>started\<close>) to running instead of null, and the command table knows neither
  \<^verbatim>\<open>complete\<close> nor an interrupted state, so \<^verbatim>\<open>complete\<close> and \<^verbatim>\<open>Cancelled\<close> both end as
  failed.
\<close>

theorem status_normalization_counterexample:
  "normalizeTurnLifecycleStatus (Some (JStr ''pending'')) = Some TurnRunning \<and>
   mapCommandStatus (Some (JStr ''complete'')) = CmdFailed \<and>
   mapCommandStatus (Some (JStr ''Cancelled'')) = CmdFailed"
  by (simp add: normalizeTurnLifecycleStatus_def mapCommandStatus_def toLowerCase_simps
      lower_char_def trim_def is_ws_def)

lemma cmd_table:
  "mapCommandStatus (Some (JStr s)) =
      (if toLowerCase s \<in> {''in_progress'', ''inprogress'', ''running'', ''queued''} then CmdRunning
       else if toLowerCase s \<in> {''completed'', ''success'', ''succeeded''} then CmdCompleted
       else CmdFailed)"
  by (simp add: mapCommandStatus_def)

lemma turn_table:
  "normalizeTurnLifecycleStatus (Some (JStr s)) =
      (if trim (toLowerCase s) \<in> {''running'', ''in_progress'', ''inprogress'', ''queued'', ''pending'', ''started''}
       then Some TurnRunning
       else if trim (toLowerCase s) \<in> {''completed'', ''complete'', ''success'', ''succeeded''} then Some TurnCompleted
       else if trim (toLowerCase s) \<in> {''interrupted'', ''aborted'', ''cancelled'', ''canceled''} then Some TurnInterrupted
       else if trim (toLowerCase s) \<in> {''failed'', ''error'', ''errored''} then Some TurnFailed
       else None)"
  by (simp add: normalizeTurnLifecycleStatus_def Let_def)

lemma command_running_iff: "(mapCommandStatus (Some (JStr s)) = CmdRunning \<longleftrightarrow>
      toLowerCase s \<in> {''in_progress'', ''inprogress'', ''running'', ''queued''})"
  unfolding cmd_table by simp

lemma command_completed_iff: "(mapCommandStatus (Some (JStr s)) = CmdCompleted \<longleftrightarrow>
      toLowerCase s \<in> {''completed'', ''success'', ''succeeded''})"
  unfolding cmd_table by auto

lemma command_failed_iff: "(mapCommandStatus (Some (JStr s)) = CmdFailed \<longleftrightarrow>
      toLowerCase s \<notin> {''in_progress'', ''inprogress'', ''running'', ''queued'',
                         ''completed'', ''success'', ''succeeded''})"
  unfolding cmd_table by simp

lemma turn_running_iff: "(normalizeTurnLifecycleStatus (Some (JStr s)) = Some TurnRunning \<longleftrightarrow>
      trim (toLowerCase s) \<in> {''running'', ''in_progress'', ''inprogress'', ''queued'',
                                ''pending'', ''started''})"
  unfolding turn_table by simp

lemma turn_completed_iff: "(normalizeTurnLifecycleStatus (Some (JStr s)) = Some TurnCompleted \<longleftrightarrow>
      trim (toLowerCase s) \<in> {''completed'', ''complete'', ''success'', ''succeeded''})"
  unfolding turn_table by auto

lemma turn_interrupted_iff: "(normalizeTurnLifecycleStatus (Some (JStr s)) = Some TurnInterrupted \<longleftrightarrow>
      trim (toLowerCase s) \<in> {''interrupted'', ''aborted'', ''cancelled'', ''canceled''})"
  unfolding turn_table by auto

lemma turn_failed_iff: "(normalizeTurnLifecycleStatus (Some (JStr s)) = Some TurnFailed \<longleftrightarrow>
      trim (toLowerCase s) \<in> {''failed'', ''error'', ''errored''})"
  unfolding turn_table by auto

lemma turn_null_iff: "(normalizeTurnLifecycleStatus (Some (JStr s)) = None \<longleftrightarrow>
      trim (toLowerCase s) \<notin> {''running'', ''in_progress'', ''inprogress'', ''queued'',
                                ''pending'', ''started'', ''completed'', ''complete'',
                                ''success'', ''succeeded'', ''interrupted'', ''aborted'',
                                ''cancelled'', ''canceled'', ''failed'', ''error'', ''errored''})"
  unfolding turn_table by simp

text \<open>
  C5, amended: both tables ignore letter case; the turn table also ignores surrounding
  white space. A command status is running exactly for
  \<^verbatim>\<open>in_progress\<close>/\<^verbatim>\<open>inprogress\<close>/\<^verbatim>\<open>running\<close>/\<^verbatim>\<open>queued\<close>, completed exactly for
  \<^verbatim>\<open>completed\<close>/\<^verbatim>\<open>success\<close>/\<^verbatim>\<open>succeeded\<close>, and failed for every other string. A turn status
  is running exactly for \<^verbatim>\<open>running\<close>/\<^verbatim>\<open>in_progress\<close>/\<^verbatim>\<open>inprogress\<close>/\<^verbatim>\<open>queued\<close>/\<^verbatim>\<open>pending\<close>/\<^verbatim>\<open>started\<close>,
  completed exactly for \<^verbatim>\<open>completed\<close>/\<^verbatim>\<open>complete\<close>/\<^verbatim>\<open>success\<close>/\<^verbatim>\<open>succeeded\<close>, interrupted
  exactly for \<^verbatim>\<open>interrupted\<close>/\<^verbatim>\<open>aborted\<close>/\<^verbatim>\<open>cancelled\<close>/\<^verbatim>\<open>canceled\<close>, failed exactly for
  \<^verbatim>\<open>failed\<close>/\<^verbatim>\<open>error\<close>/\<^verbatim>\<open>errored\<close>, and null for every other string.
\<close>

theorem status_normalization_tables:
  "(mapCommandStatus (Some (JStr s)) = CmdRunning \<longleftrightarrow>
      toLowerCase s \<in> {''in_progress'', ''inprogress'', ''running'', ''queued''}) \<and>
   (mapCommandStatus (Some (JStr s)) = CmdCompleted \<longleftrightarrow>
      toLowerCase s \<in> {''completed'', ''success'', ''succeeded''}) \<and>
   (mapCommandStatus (Some (JStr s)) = CmdFailed \<longleftrightarrow>
      toLowerCase s \<notin> {''in_progress'', ''inprogress'', ''running'', ''queued'',
                         ''completed'', ''success'', ''succeeded''}) \<and>
   (normalizeTurnLifecycleStatus (Some (JStr s)) = Some TurnRunning \<longleftrightarrow>
      trim (toLowerCase s) \<in> {''running'', ''in_progress'', ''inprogress'', ''queued'',
                                ''pending'', ''started''}) \<and>
   (normalizeTurnLifecycleStatus (Some (JStr s)) = Some TurnCompleted \<longleftrightarrow>
      trim (toLowerCase s) \<in> {''completed'', ''complete'', ''success'', ''succeeded''}) \<and>
   (normalizeTurnLifecycleStatus (Some (JStr s)) = Some TurnInterrupted \<longleftrightarrow>
      trim (toLowerCase s) \<in> {''interrupted'', ''aborted'', ''cancelled'', ''canceled''}) \<and>
   (normalizeTurnLifecycleStatus (Some (JStr s)) = Some TurnFailed \<longleftrightarrow>
      trim (toLowerCase s) \<in> {''failed'', ''error'', ''errored''}) \<and>
   (normalizeTurnLifecycleStatus (Some (JStr s)) = None \<longleftrightarrow>
      trim (toLowerCase s) \<notin> {''running'', ''in_progress'', ''inprogress'', ''queued'',
                                ''pending'', ''started'', ''completed'', ''complete'',
                                ''success'', ''succeeded'', ''interrupted'', ''aborted'',
                                ''cancelled'', ''canceled'', ''failed'', ''error'', ''errored''})"
  by (intro conjI)
     (rule command_running_iff command_completed_iff command_failed_iff turn_running_iff
        turn_completed_iff turn_interrupted_iff turn_failed_iff turn_null_iff)+

subsection \<open>Timestamp normalization (C9)\<close>

lemma pow2_pos [simp]: "0 < pow2 e"
  by (simp add: pow2_def)

lemma pow2_nonneg [simp]: "0 \<le> pow2 e"
  by (simp add: pow2_def)

lemma pow2_nonzero [simp]: "pow2 e \<noteq> 0"
  by (simp add: pow2_def)

lemma pow2_mono: "a \<le> b \<Longrightarrow> pow2 a \<le> pow2 b"
proof -
  assume ab: "a \<le> b"
  have one: "1 / 2 ^ k \<le> (1::real)" for k :: nat
    by simp
  have two: "(1::real) \<le> 2 ^ k" for k :: nat
    by simp
  show ?thesis
  proof (cases "0 \<le> a")
    case True
    then show ?thesis using ab by (simp add: pow2_def)
  next
    case False
    show ?thesis
    proof (cases "0 \<le> b")
      case True
      have "pow2 a \<le> 1" using False one [of "nat (- a)"] by (simp add: pow2_def)
      also have "1 \<le> pow2 b" using True two [of "nat b"] by (simp add: pow2_def)
      finally show ?thesis .
    next
      case b: False
      have "nat (- b) \<le> nat (- a)" using ab by simp
      then have "(2::real) ^ nat (- b) \<le> 2 ^ nat (- a)"
        by (intro power_increasing) simp_all
      then have "1 / (2::real) ^ nat (- a) \<le> 1 / 2 ^ nat (- b)"
        by (intro divide_left_mono) simp_all
      then show ?thesis using False b by (simp add: pow2_def)
    qed
  qed
qed

lemma roundHalfEven_near: "\<bar>of_int (roundHalfEven r) - r\<bar> \<le> 1 / 2"
  unfolding roundHalfEven_def Let_def by (auto; linarith)

lemma roundHalfEven_int [simp]: "roundHalfEven (of_int k) = k"
  by (simp add: roundHalfEven_def)

lemma ulpExponent_lower: "- 1074 \<le> ulpExponent x"
  by (simp add: ulpExponent_def)

lemma bitlen_scaled:
  assumes "\<bar>x\<bar> < 2 ^ n"
  shows "bitlen \<lfloor>\<bar>x\<bar> * 2 ^ k\<rfloor> \<le> int (n + k)"
proof -
  have "\<bar>x\<bar> * 2 ^ k < 2 ^ n * 2 ^ k"
    using assms by (intro mult_strict_right_mono) simp_all
  then have "\<bar>x\<bar> * 2 ^ k < 2 ^ (n + k)"
    by (simp only: power_add)
  then have "\<lfloor>\<bar>x\<bar> * 2 ^ k\<rfloor> < 2 ^ (n + k)"
    by (metis floor_less_iff of_int_numeral of_int_power)
  then show ?thesis
    by (simp only: bitlen_le_iff_power nat_int) simp
qed

lemma ulpExponent_upper:
  assumes "\<bar>x\<bar> < 2 ^ n"
  shows "ulpExponent x \<le> max (- 1074) (int n - 53)"
  using bitlen_scaled [OF assms, of 1074] unfolding ulpExponent_def by linarith

lemma nearestDouble_near:
  "\<bar>nearestDouble x - x\<bar> \<le> pow2 (ulpExponent x) / 2"
proof -
  define e where "e = ulpExponent x"
  define q where "q = roundHalfEven (x / pow2 e)"
  have p: "0 < pow2 e" by simp
  have "\<bar>of_int q - x / pow2 e\<bar> \<le> 1 / 2"
    unfolding q_def by (rule roundHalfEven_near)
  then have "\<bar>of_int q - x / pow2 e\<bar> * pow2 e \<le> 1 / 2 * pow2 e"
    by (rule mult_right_mono) simp
  moreover have "\<bar>of_int q - x / pow2 e\<bar> * pow2 e = \<bar>of_int q * pow2 e - x\<bar>"
  proof -
    have "\<bar>of_int q - x / pow2 e\<bar> * pow2 e = \<bar>(of_int q - x / pow2 e) * pow2 e\<bar>"
      using p by (simp add: abs_mult)
    also have "(of_int q - x / pow2 e) * pow2 e = of_int q * pow2 e - x"
      using p by (simp add: left_diff_distrib)
    finally show ?thesis .
  qed
  ultimately have "\<bar>of_int q * pow2 e - x\<bar> \<le> pow2 e / 2" by simp
  then show ?thesis by (simp add: nearestDouble_def e_def q_def)
qed

text \<open>A value that is a whole number of units in its last place is a double already.\<close>

lemma nearestDouble_exact:
  assumes "x / pow2 (ulpExponent x) = of_int k"
  shows "nearestDouble x = x"
proof -
  have "0 < pow2 (ulpExponent x)" by simp
  then have "x = of_int k * pow2 (ulpExponent x)"
    using assms by (simp add: field_simps)
  then show ?thesis
    using assms by (simp add: nearestDouble_def)
qed

lemma pow2_neg_int:
  assumes "e \<le> 0"
  shows "of_int n / pow2 e = of_int (n * 2 ^ nat (- e))"
proof (cases "e = 0")
  case True
  then show ?thesis by (simp add: pow2_def)
next
  case False
  then show ?thesis using assms by (simp add: pow2_def)
qed

lemma nearestDouble_int:
  assumes "\<bar>of_int n :: real\<bar> < 2 ^ 53"
  shows "nearestDouble (of_int n) = of_int n"
proof -
  have "ulpExponent (of_int n) \<le> 0"
    using ulpExponent_upper [OF assms] by simp
  then show ?thesis
    by (intro nearestDouble_exact [of _ "n * 2 ^ nat (- ulpExponent (of_int n))"] pow2_neg_int)
qed

lemma nearestDouble_product_near:
  assumes "0 < v" and "v < 10 ^ 12"
  shows "\<bar>nearestDouble (v * 1000) - v * 1000\<bar> \<le> 1 / 16"
proof -
  have "v * 1000 < 10 ^ 12 * 1000" using assms by simp
  also have "\<dots> < (2::real) ^ 50" by simp
  finally have "\<bar>v * 1000\<bar> < 2 ^ 50" using assms by simp
  from ulpExponent_upper [OF this] have "ulpExponent (v * 1000) \<le> - 3" by simp
  then have "pow2 (ulpExponent (v * 1000)) \<le> pow2 (- 3)" by (rule pow2_mono)
  also have "pow2 (- 3) = 1 / 8" by (simp add: pow2_def)
  finally show ?thesis
    using nearestDouble_near [of "v * 1000"] by simp
qed

lemma ulpExponent_eq:
  assumes lo: "2 ^ (n + 52) \<le> \<bar>x\<bar> * 2 ^ 1074" and hi: "\<bar>x\<bar> * 2 ^ 1074 < 2 ^ (n + 53)"
  shows "ulpExponent x = int n - 1074"
proof -
  define s where "s = \<lfloor>\<bar>x\<bar> * 2 ^ 1074\<rfloor>"
  have "s < 2 ^ (n + 53)"
    unfolding s_def using hi by (metis floor_less_iff of_int_numeral of_int_power)
  then have up: "bitlen s \<le> int (n + 53)"
    by (simp only: bitlen_le_iff_power nat_int) simp
  have "2 ^ (n + 52) \<le> s"
    unfolding s_def using lo by (metis le_floor_iff of_int_numeral of_int_power)
  moreover have "nat (int (n + 53)) - 1 = n + 52" by simp
  ultimately have "int (n + 53) \<le> bitlen s"
    by (simp only: bitlen_ge_iff_power) simp
  with up have "bitlen s = int n + 53" by simp
  then show ?thesis
    unfolding ulpExponent_def s_def [symmetric] by simp
qed

text \<open>
  C9: a value that is no number, not finite, or not positive gives \<open>now\<close>. A positive value
  below \<open>10\<^sup>1\<^sup>2\<close> gives the value multiplied by 1000 and rounded, one conversion from
  seconds: the product is the product of doubles, the double nearest to the exact product
  and within \<open>1/16\<close> of it, and a whole number of seconds gives exactly that many thousands.
  A value from \<open>10\<^sup>1\<^sup>2\<close> on gives the value rounded, and normalizing that result again
  returns it unchanged.
\<close>

theorem normalizeTimestamp_cases:
  "normalizeTimestamp now None = now \<and>
   normalizeTimestamp now (Some NaN) = now \<and>
   normalizeTimestamp now (Some PosInfinity) = now \<and>
   normalizeTimestamp now (Some NegInfinity) = now \<and>
   (v \<le> 0 \<longrightarrow> normalizeTimestamp now (Some (Finite v)) = now) \<and>
   (0 < v \<and> v < 10 ^ 12 \<longrightarrow>
      normalizeTimestamp now (Some (Finite v)) = round (nearestDouble (v * 1000)) \<and>
      \<bar>nearestDouble (v * 1000) - v * 1000\<bar> \<le> 1 / 16) \<and>
   (0 < n \<and> n < 10 ^ 12 \<longrightarrow> normalizeTimestamp now (Some (Finite (of_int n))) = n * 1000) \<and>
   (10 ^ 12 \<le> v \<longrightarrow> normalizeTimestamp now (Some (Finite v)) = round v) \<and>
   (10 ^ 12 \<le> v \<longrightarrow>
      normalizeTimestamp now (Some (Finite (of_int (normalizeTimestamp now (Some (Finite v))))))
        = normalizeTimestamp now (Some (Finite v)))"
proof -
  have idem: "normalizeTimestamp now (Some (Finite (of_int (round v)))) = round v"
    if "10 ^ 12 \<le> v" for v :: real
  proof -
    have "(10 ^ 12 :: int) \<le> round v"
      using round_mono [of "10 ^ 12" v] that by simp
    then have "(10 ^ 12 :: real) \<le> of_int (round v)"
      by (metis of_int_le_iff of_int_numeral of_int_power)
    then show ?thesis by simp
  qed
  have whole: "normalizeTimestamp now (Some (Finite (of_int n))) = n * 1000"
    if "0 < n" and "n < 10 ^ 12"
  proof -
    have "n * 1000 < 10 ^ 12 * 1000" using that by simp
    also have "\<dots> < (2::int) ^ 53" by simp
    finally have "\<bar>n * 1000\<bar> < 2 ^ 53" using that by simp
    then have "\<bar>of_int (n * 1000) :: real\<bar> < 2 ^ 53"
      by (metis of_int_abs of_int_less_iff of_int_numeral of_int_power)
    then have "nearestDouble (of_int (n * 1000)) = of_int (n * 1000)"
      by (rule nearestDouble_int)
    moreover have "(of_int n :: real) < of_int (10 ^ 12)"
      using that(2) by (simp only: of_int_less_iff)
    then have "(of_int n :: real) < 1000000000000" by simp
    moreover have "round (of_int n * 1000 :: real) = n * 1000"
      using round_of_int [of "n * 1000", where ?'a = real] by simp
    ultimately show ?thesis
      using that(1) by simp
  qed
  show ?thesis
    using idem [of v] whole nearestDouble_product_near [of v] by simp
qed

theorem normalizeTimestamp_cases_witness:
  "normalizeTimestamp 1700000000000 (Some (Finite (- 5))) = 1700000000000 \<and>
   normalizeTimestamp 1700000000000 (Some (Finite 1700000000)) = 1700000000000 \<and>
   normalizeTimestamp 1700000000000 (Some (Finite (7130316800002097 / 4194304))) = 1700000000001 \<and>
   normalizeTimestamp 1700000000000 (Some (Finite 1700000000123)) = 1700000000123 \<and>
   normalizeTimestamp 1700000000000
     (Some (Finite (of_int (normalizeTimestamp 1700000000000 (Some (Finite 1700000000123))))))
     = 1700000000123"
proof -
  define x :: real where "x = 7130316800002097 / 4194304 * 1000"
  have e: "ulpExponent x = - 12"
    using ulpExponent_eq [of 1062 x] by (simp add: x_def)
  have "nearestDouble x = 1700000000000 + 1 / 2"
    unfolding nearestDouble_def e by (simp add: x_def pow2_def roundHalfEven_def)
  then have d: "nearestDouble (7130316800002097 / 4194304 * 1000) = 1700000000000 + 1 / 2"
    by (simp only: x_def)
  have r: "round (1700000000000 + 1 / 2 :: real) = 1700000000001"
    by (simp add: round_def)
  show ?thesis
    using normalizeTimestamp_cases [of 1700000000000 "- 5" 1700000000]
      normalizeTimestamp_cases [of 1700000000000 "7130316800002097 / 4194304" 1700000000]
      normalizeTimestamp_cases [of 1700000000000 1700000000123 1700000000]
    by (simp only: d r) simp
qed

subsection \<open>Sending while disconnected (C10)\<close>

text \<open>
  C10: when the relay socket is absent or not in the OPEN state, \<^verbatim>\<open>send\<close> returns with the
  bridge unchanged, whatever the message (an ack, an event, a thread update or upsert, a
  heartbeat): nothing goes on the wire, and the bridge has no queue to keep it in.
\<close>

theorem send_discards_unless_open:
  "ws b = None \<or> ws b \<noteq> Some OPEN \<Longrightarrow>
     send message b = b \<and> wire (send message b) = wire b"
  by (auto simp: send_def)

theorem send_discards_unless_open_witness:
  "send (DispatchAck ''r1'' ''m1'' Accepted None None)
        \<lparr>ws = Some CLOSED, wire = [], threadBindings = Map.empty, draws = 0\<rparr>
     = \<lparr>ws = Some CLOSED, wire = [], threadBindings = Map.empty, draws = 0\<rparr> \<and>
   send (MachineHeartbeat ''m1'' 1700000000000)
        \<lparr>ws = None, wire = [], threadBindings = Map.empty, draws = 0\<rparr>
     = \<lparr>ws = None, wire = [], threadBindings = Map.empty, draws = 0\<rparr>"
  using send_discards_unless_open
          [of "\<lparr>ws = Some CLOSED, wire = [], threadBindings = Map.empty, draws = 0\<rparr>"
              "DispatchAck ''r1'' ''m1'' Accepted None None"]
        send_discards_unless_open
          [of "\<lparr>ws = None, wire = [], threadBindings = Map.empty, draws = 0\<rparr>"
              "MachineHeartbeat ''m1'' 1700000000000"]
  by simp

subsection \<open>What a hydration pass puts on the wire\<close>

lemma ws_send [simp]: "ws (send m b) = ws b"
  by (simp add: send_def)

lemma draws_send [simp]: "draws (send m b) = draws b"
  by (simp add: send_def)

lemma threadBindings_send [simp]: "threadBindings (send m b) = threadBindings b"
  by (simp add: send_def)

lemma wire_send:
  "wire (send m b) = wire b @ (if ws b = Some OPEN then [m] else [])"
  by (simp add: send_def)

lemma emitMapped_ws [simp]:
  "ws (hy_bridge (emitMapped mid tid t ms h)) = ws (hy_bridge h)"
  by (induction ms arbitrary: h) (simp_all add: Let_def upsert_def)

lemma emitMapped_draws [simp]:
  "draws (hy_bridge (emitMapped mid tid t ms h)) = draws (hy_bridge h)"
  by (induction ms arbitrary: h) (simp_all add: Let_def upsert_def)

lemma emitMapped_timestamp [simp]:
  "hy_timestamp (emitMapped mid tid t ms h) = hy_timestamp h"
  by (induction ms arbitrary: h) (simp_all add: Let_def upsert_def)

lemma emitMapped_wire:
  "wire (hy_bridge (emitMapped mid tid t ms h)) =
     wire (hy_bridge h) @ (if ws (hy_bridge h) = Some OPEN then map (EventUpsert t mid tid) ms else [])"
  by (induction ms arbitrary: h) (simp_all add: Let_def upsert_def wire_send)


lemma emitMapped_total:
  "hy_importedItemCount (emitMapped mid tid t ms h) = hy_importedItemCount h + length ms"
  by (induction ms arbitrary: h) (simp_all add: Let_def upsert_def)


lemma replayItem_ws [simp]:
  "ws (hy_bridge (replayItem mid tid t raw h)) = ws (hy_bridge h)"
  by (simp add: replayItem_def Let_def draw_def upsert_def split: option.splits prod.splits)

lemma replayItem_wire:
  "wire (hy_bridge (replayItem mid tid t raw h)) =
     wire (hy_bridge h) @
       (if ws (hy_bridge h) = Some OPEN then map (EventUpsert t mid tid) (replayOut t raw h) else [])"
  by (simp add: replayItem_def replayOut_def Let_def draw_def upsert_def wire_send emitMapped_wire
      split: option.splits prod.splits)



lemma replayItems_ws [simp]:
  "ws (hy_bridge (replayItems mid tid t raws h)) = ws (hy_bridge h)"
  by (induction raws arbitrary: h) simp_all

lemma upsertItems_append [simp]: "upsertItems (xs @ ys) = upsertItems xs @ upsertItems ys"
  by (induction xs rule: upsertItems.induct) simp_all

lemma upsertItems_map [simp]: "upsertItems (map (EventUpsert r m t) items) = items"
  by (induction items) simp_all

lemma ackTrail_append [simp]: "ackTrail (xs @ ys) = ackTrail xs @ ackTrail ys"
  by (induction xs rule: ackTrail.induct) simp_all

lemma ackTrail_map_upsert [simp]: "ackTrail (map (EventUpsert r m t) items) = []"
  by (induction items) simp_all









lemma hydrateTurn_afterReplay:
  "hydrateTurn mid tid turn h =
     (let h1 = afterReplay mid tid turn h in
      case inferHydratedTurnLifecycleStatus turn
             (hy_importedTurnItemCount h1) (hy_hasRunningActivity h1) of
        None \<Rightarrow> h1
      | Some st \<Rightarrow>
          (let h3 = upsert mid tid (turnIdOf turn h)
                      (Plan (randomUUID (draws (hy_bridge h1))) (turnIdOf turn h)
                         (stringify (turnCompletedNotice st)) (hy_timestamp h1))
                      (snd (draw h1))
           in h3\<lparr>hy_timestamp := hy_timestamp h3 + 1,
                 hy_importedItemCount := hy_importedItemCount h3 + 1\<rparr>))"
  by (simp add: hydrateTurn_def afterReplay_def turnIdOf_def Let_def draw_def
      split: option.splits prod.splits)

subsection \<open>The terminator of a hydrated turn (C6)\<close>



subsection \<open>Timestamps within one hydration pass (C3)\<close>

lemma advances_refl: "advances h h"
  by (simp add: advances_def)

lemma advances_trans:
  assumes "advances h h'" and "advances h' h''"
  shows "advances h h''"
proof -
  from assms(1) obtain out1 where
    w1: "wire (hy_bridge h') = wire (hy_bridge h) @ out1"
    and o1: "ws (hy_bridge h') = ws (hy_bridge h)"
    and a1: "if ws (hy_bridge h) = Some OPEN then ackTrail out1 = [] else out1 = []"
    and t1: "hy_timestamp h \<le> hy_timestamp h'"
    and s1: "sorted_wrt playbackOrdered (upsertItems out1)"
    and b1: "list_all (\<lambda>x. hy_timestamp h \<le> itemTimestamp x \<and> itemTimestamp x < hy_timestamp h')
               (upsertItems out1)"
    unfolding advances_def by blast
  from assms(2) obtain out2 where
    w2: "wire (hy_bridge h'') = wire (hy_bridge h') @ out2"
    and o2: "ws (hy_bridge h'') = ws (hy_bridge h')"
    and a2: "if ws (hy_bridge h') = Some OPEN then ackTrail out2 = [] else out2 = []"
    and t2: "hy_timestamp h' \<le> hy_timestamp h''"
    and s2: "sorted_wrt playbackOrdered (upsertItems out2)"
    and b2: "list_all (\<lambda>x. hy_timestamp h' \<le> itemTimestamp x \<and> itemTimestamp x < hy_timestamp h'')
               (upsertItems out2)"
    unfolding advances_def by blast
  have cross: "playbackOrdered x y"
    if "x \<in> set (upsertItems out1)" and "y \<in> set (upsertItems out2)" for x y
  proof -
    have "itemTimestamp x < hy_timestamp h'" using b1 that(1) by (auto simp: list_all_iff)
    moreover have "hy_timestamp h' \<le> itemTimestamp y" using b2 that(2) by (auto simp: list_all_iff)
    ultimately show ?thesis by (simp add: playbackOrdered_def)
  qed
  have "wire (hy_bridge h'') = wire (hy_bridge h) @ (out1 @ out2)"
    by (simp add: w1 w2)
  moreover have "ws (hy_bridge h'') = ws (hy_bridge h)" using o1 o2 by simp
  moreover have "if ws (hy_bridge h) = Some OPEN then ackTrail (out1 @ out2) = [] else out1 @ out2 = []"
    using a1 a2 o1 by (simp split: if_splits)
  moreover have "hy_timestamp h \<le> hy_timestamp h''" using t1 t2 by simp
  moreover have "sorted_wrt playbackOrdered (upsertItems (out1 @ out2))"
    using s1 s2 cross by (simp add: sorted_wrt_append)
  moreover have "list_all (\<lambda>x. hy_timestamp h \<le> itemTimestamp x \<and> itemTimestamp x < hy_timestamp h'')
                   (upsertItems (out1 @ out2))"
    using b1 b2 t1 t2 by (auto simp: list_all_iff)
  ultimately show ?thesis unfolding advances_def by blast
qed

lemma mapChange_Some:
  "mapChange i t T ic = Some x \<Longrightarrow> isFileChange x \<and> itemTimestamp x = T"
  by (auto simp: mapChange_def Let_def split: option.splits if_splits)

lemma map_filter_mapChange:
  "x \<in> set (List.map_filter (mapChange i t T) zs) \<Longrightarrow> isFileChange x \<and> itemTimestamp x = T"
  by (auto simp: List.map_filter_def dest: mapChange_Some)

lemma mapCodexItem_timestamp:
  "x \<in> set (mapCodexItem fresh item t T) \<Longrightarrow> itemTimestamp x = T"
  by (auto simp: mapCodexItem_def Let_def dest: map_filter_mapChange split: if_splits)

lemma mapCodexItem_shape:
  "length (mapCodexItem fresh item t T) \<le> 1 \<or> list_all isFileChange (mapCodexItem fresh item t T)"
  by (auto simp: mapCodexItem_def Let_def list_all_iff dest: map_filter_mapChange)

lemma same_stamp_ordered:
  assumes "\<And>x. x \<in> set xs \<Longrightarrow> itemTimestamp x = T"
    and "length xs \<le> 1 \<or> list_all isFileChange xs"
  shows "sorted_wrt playbackOrdered xs"
proof (cases "length xs \<le> 1")
  case True
  then show ?thesis by (cases xs) (auto simp: le_Suc_eq)
next
  case False
  with assms(2) have "list_all isFileChange xs" by simp
  with assms(1) have "\<And>x y. x \<in> set xs \<Longrightarrow> y \<in> set xs \<Longrightarrow> playbackOrdered x y"
    by (auto simp: playbackOrdered_def list_all_iff)
  then show ?thesis by (simp add: sorted_wrt_iff_nth_less)
qed

lemma replayOut_timestamp:
  "x \<in> set (replayOut t raw h) \<Longrightarrow> itemTimestamp x = hy_timestamp h"
  by (auto simp: replayOut_def Let_def dest: mapCodexItem_timestamp split: option.splits if_splits)

lemma replayOut_shape:
  "length (replayOut t raw h) \<le> 1 \<or> list_all isFileChange (replayOut t raw h)"
  using mapCodexItem_shape by (auto simp: replayOut_def Let_def split: option.splits)

lemma replayItem_timestamp:
  "hy_timestamp (replayItem mid tid t raw h) =
     (if replayOut t raw h = [] \<and> asObject (Some raw) = None then hy_timestamp h
      else hy_timestamp h + 1)"
  by (simp add: replayItem_def replayOut_def Let_def draw_def upsert_def
      split: option.splits prod.splits)

lemma replayItem_advances: "advances h (replayItem mid tid t raw h)"
proof -
  let ?out = "if ws (hy_bridge h) = Some OPEN then map (EventUpsert t mid tid) (replayOut t raw h) else []"
  have items: "upsertItems ?out = (if ws (hy_bridge h) = Some OPEN then replayOut t raw h else [])"
    by simp
  have "wire (hy_bridge (replayItem mid tid t raw h)) = wire (hy_bridge h) @ ?out"
    by (rule replayItem_wire)
  moreover have "ws (hy_bridge (replayItem mid tid t raw h)) = ws (hy_bridge h)"
    by simp
  moreover have "if ws (hy_bridge h) = Some OPEN then ackTrail ?out = [] else ?out = []"
    by simp
  moreover have "hy_timestamp h \<le> hy_timestamp (replayItem mid tid t raw h)"
    by (simp add: replayItem_timestamp)
  moreover have "sorted_wrt playbackOrdered (upsertItems ?out)"
    unfolding items using same_stamp_ordered [OF replayOut_timestamp replayOut_shape] by simp
  moreover have "list_all (\<lambda>x. hy_timestamp h \<le> itemTimestamp x \<and>
                       itemTimestamp x < hy_timestamp (replayItem mid tid t raw h))
                   (upsertItems ?out)"
    unfolding items
    by (auto simp: list_all_iff replayItem_timestamp dest: replayOut_timestamp)
  ultimately show ?thesis unfolding advances_def by blast
qed

lemma replayItems_advances: "advances h (replayItems mid tid t raws h)"
proof (induction raws arbitrary: h)
  case Nil
  show ?case by (simp add: advances_refl)
next
  case (Cons raw raws)
  show ?case
    using advances_trans [OF replayItem_advances Cons.IH] by simp
qed

lemma advances_same_wire:
  "wire (hy_bridge h') = wire (hy_bridge h) \<Longrightarrow> ws (hy_bridge h') = ws (hy_bridge h) \<Longrightarrow>
     hy_timestamp h' = hy_timestamp h \<Longrightarrow> advances h h'"
  by (simp add: advances_def)

lemma hydrateTurn_advances: "advances h (hydrateTurn mid tid turn h)"
proof -
  define h0 where
    "h0 = (case getString (jget turn ''id'') of None \<Rightarrow> snd (draw h) | Some s \<Rightarrow> h)
            \<lparr>hy_importedTurnItemCount := 0, hy_hasRunningActivity := False\<rparr>"
  define h1 where "h1 = afterReplay mid tid turn h"
  have a0: "advances h h0"
    by (rule advances_same_wire) (simp_all add: h0_def draw_def split: option.splits)
  have a1: "advances h0 h1"
    unfolding h1_def afterReplay_def h0_def [symmetric] by (rule replayItems_advances)
  have a2: "advances h1 (hydrateTurn mid tid turn h)"
  proof (cases "inferHydratedTurnLifecycleStatus turn (hy_importedTurnItemCount h1) (hy_hasRunningActivity h1)")
    case None
    then show ?thesis
      by (simp add: hydrateTurn_afterReplay h1_def [symmetric] advances_refl)
  next
    case (Some st)
    then show ?thesis
      by (simp add: hydrateTurn_afterReplay h1_def [symmetric] Let_def advances_def upsert_def
          draw_def wire_send)
  qed
  show ?thesis by (rule advances_trans [OF advances_trans [OF a0 a1] a2])
qed

lemma hydrateTurns_advances: "advances h (hydrateTurns mid tid turns h)"
proof (induction turns arbitrary: h)
  case Nil
  show ?case by (simp add: advances_refl)
next
  case (Cons turn turns)
  show ?case
    using advances_trans [OF hydrateTurn_advances Cons.IH] by simp
qed

text \<open>
  C3, as the claim states it, fails on the code: the changes of one upstream file-change
  item are emitted as separate items that all carry the one timestamp passed to
  \<^verbatim>\<open>mapCodexItem\<close>, so two emitted items have equal timestamps.
\<close>

theorem hydration_timestamps_counterexample:
  "map itemTimestamp
     (upsertItems (framesSince \<lparr>ws = Some OPEN, wire = [], threadBindings = Map.empty, draws = 0\<rparr>
        (hy_bridge (hydrateResponse ''m1'' 1000 ''th1''
           (JObj [(''turns'', JArr [JObj [(''id'', JStr ''t1''), (''items'', JArr
              [JObj [(''type'', JStr ''fileChange''), (''id'', JStr ''f1''),
                     (''changes'', JArr [JObj [(''path'', JStr ''a.txt'')],
                                         JObj [(''path'', JStr ''b.txt'')]])]])]])])
           \<lparr>ws = Some OPEN, wire = [], threadBindings = Map.empty, draws = 0\<rparr>))))
     = [900, 900, 901] \<and>
   \<not> sorted_wrt (<) [900, 900, 901 :: int]"
  by code_simp

text \<open>
  C3, amended: within one hydration pass the timestamps of the emitted items never
  decrease in emission order and are at or above \<open>now - max 1 (turns * 100)\<close>, where the
  running timestamp starts; of two emitted items the later one has the strictly larger
  timestamp unless both are file changes (the changes of one upstream item share that
  item's timestamp).
\<close>

theorem hydration_timestamps_ordered:
  "let h = hydrateResponse mid now tid response b;
       items = upsertItems (framesSince b (hy_bridge h));
       turns = fst (extractTurnsFromThreadReadResponse response (draws b))
   in sorted_wrt playbackOrdered items \<and>
      sorted_wrt (\<le>) (map itemTimestamp items) \<and>
      (\<forall>x \<in> set items. startTimestamp now turns \<le> itemTimestamp x)"
proof -
  obtain turns d where ex: "extractTurnsFromThreadReadResponse response (draws b) = (turns, d)"
    by (cases "extractTurnsFromThreadReadResponse response (draws b)")
  define h0 where
    "h0 = \<lparr>hy_bridge = b\<lparr>draws := d\<rparr>, hy_timestamp = startTimestamp now turns,
           hy_importedItemCount = 0, hy_importedTurnItemCount = 0, hy_hasRunningActivity = False\<rparr>"
  define h where "h = hydrateResponse mid now tid response b"
  have h: "h = hydrateTurns mid tid turns h0"
    by (simp add: h_def hydrateResponse_def ex h0_def)
  have "advances h0 h" unfolding h by (rule hydrateTurns_advances)
  then obtain out where
    w: "wire (hy_bridge h) = wire (hy_bridge h0) @ out"
    and s: "sorted_wrt playbackOrdered (upsertItems out)"
    and bnd: "list_all (\<lambda>x. hy_timestamp h0 \<le> itemTimestamp x \<and> itemTimestamp x < hy_timestamp h)
               (upsertItems out)"
    unfolding advances_def by blast
  have frames: "framesSince b (hy_bridge h) = out"
    by (simp add: framesSince_def w h0_def)
  have mono: "sorted_wrt (\<le>) (map itemTimestamp (upsertItems out))"
    unfolding sorted_wrt_map
    by (rule sorted_wrt_mono_rel [OF _ s]) (auto simp: playbackOrdered_def)
  show ?thesis
    unfolding h_def [symmetric] Let_def frames ex
    using s mono bnd by (auto simp: list_all_iff h0_def)
qed

theorem hydration_timestamps_ordered_witness:
  "upsertItems (framesSince \<lparr>ws = Some OPEN, wire = [], threadBindings = Map.empty, draws = 0\<rparr>
     (hy_bridge (hydrateResponse ''m1'' 1000 ''th1''
        (JObj [(''thread'', JObj [(''id'', JStr ''thread-1''), (''items'', JArr
           [JObj [(''type'', JStr ''agentMessage''), (''text'', JStr ''hello'')],
            JObj [(''type'', JStr ''userMessage''), (''text'', JStr '' '')],
            JStr ''note'']) ])])
        \<lparr>ws = Some OPEN, wire = [], threadBindings = Map.empty, draws = 0\<rparr>)))
     = [AgentMessage ''uuid-0'' ''thread-1'' ''hello'' 900,
        Plan ''uuid-2'' ''thread-1'' ''note'' 902,
        Plan ''uuid-3'' ''thread-1''
          (''{'' @ quote ''method'' @ '':'' @ quote ''turn/completed'' @ '','' @ quote ''params'' @
           '':{'' @ quote ''status'' @ '':'' @ quote ''completed'' @ ''}}'') 903] \<and>
   sorted_wrt playbackOrdered
     [AgentMessage ''uuid-0'' ''thread-1'' ''hello'' 900,
      Plan ''uuid-2'' ''thread-1'' ''note'' 902,
      Plan ''uuid-3'' ''thread-1''
        (''{'' @ quote ''method'' @ '':'' @ quote ''turn/completed'' @ '','' @ quote ''params'' @
         '':{'' @ quote ''status'' @ '':'' @ quote ''completed'' @ ''}}'') 903] \<and>
   startTimestamp 1000 (fst (extractTurnsFromThreadReadResponse
        (JObj [(''thread'', JObj [(''id'', JStr ''thread-1''), (''items'', JArr
           [JObj [(''type'', JStr ''agentMessage''), (''text'', JStr ''hello'')],
            JObj [(''type'', JStr ''userMessage''), (''text'', JStr '' '')],
            JStr ''note'']) ])]) 0)) = 900"
proof -
  let ?b = "\<lparr>ws = Some OPEN, wire = [], threadBindings = Map.empty, draws = 0\<rparr>"
  let ?r = "JObj [(''thread'', JObj [(''id'', JStr ''thread-1''), (''items'', JArr
           [JObj [(''type'', JStr ''agentMessage''), (''text'', JStr ''hello'')],
            JObj [(''type'', JStr ''userMessage''), (''text'', JStr '' '')],
            JStr ''note'']) ])]"
  have items: "upsertItems (framesSince ?b (hy_bridge (hydrateResponse ''m1'' 1000 ''th1'' ?r ?b)))
     = [AgentMessage ''uuid-0'' ''thread-1'' ''hello'' 900,
        Plan ''uuid-2'' ''thread-1'' ''note'' 902,
        Plan ''uuid-3'' ''thread-1''
          (''{'' @ quote ''method'' @ '':'' @ quote ''turn/completed'' @ '','' @ quote ''params'' @
           '':{'' @ quote ''status'' @ '':'' @ quote ''completed'' @ ''}}'') 903]"
    by code_simp
  have start: "startTimestamp 1000 (fst (extractTurnsFromThreadReadResponse ?r 0)) = 900"
    by code_simp
  show ?thesis
    using hydration_timestamps_ordered [of "''m1''" 1000 "''th1''" ?r ?b]
    unfolding Let_def items start by simp
qed

subsection \<open>Forwarding \<^verbatim>\<open>turn/completed\<close> (C2)\<close>

text \<open>
  C2, as the claim states it, fails on the code: for a \<^verbatim>\<open>turn/completed\<close> notification with
  status \<^verbatim>\<open>completed\<close> the list of items stays empty, and the catch-all at the end of
  \<^verbatim>\<open>forwardCodexNotification\<close> then emits one plan item with the JSON of the notification.
\<close>

theorem turn_completed_forwarding_counterexample:
  "framesSince \<lparr>ws = Some OPEN, wire = [], threadBindings = [''c1'' \<mapsto> ''d1''], draws = 0\<rparr>
     (forwardCodexNotification ''m1'' 1000 ''turn/completed''
        (Some (JObj [(''threadId'', JStr ''c1''), (''turnId'', JStr ''t1''), (''status'', JStr ''completed'')]))
        \<lparr>ws = Some OPEN, wire = [], threadBindings = [''c1'' \<mapsto> ''d1''], draws = 0\<rparr>)
     = [EventUpsert ''t1'' ''m1'' ''d1''
          (Plan ''uuid-0'' ''t1''
             (''{'' @ quote ''method'' @ '':'' @ quote ''turn/completed'' @ '','' @ quote ''params'' @
              '':{'' @ quote ''threadId'' @ '':'' @ quote ''c1'' @ '','' @ quote ''turnId'' @ '':'' @
              quote ''t1'' @ '','' @ quote ''status'' @ '':'' @ quote ''completed'' @ ''}}'') 1000)]"
  by code_simp

text \<open>
  C2, amended: a \<^verbatim>\<open>turn/completed\<close> notification (the method compared in lower case) for a
  thread with a binding puts exactly one \<^verbatim>\<open>event.upsert\<close> on an open socket, a plan item.
  With the status (lower-cased, \<^verbatim>\<open>completed\<close> when no string is given) other than
  \<^verbatim>\<open>completed\<close> and \<^verbatim>\<open>success\<close> its text describes the status and the error message if
  there is one; otherwise its text is the JSON of \<^verbatim>\<open>{method, params}\<close>.
\<close>

theorem turn_completed_forwarding:
  assumes "toLowerCase method = ''turn/completed''"
    and "extractThreadId params = Some codexThreadId"
    and "threadBindings b codexThreadId = Some durangoThreadId"
    and "durangoThreadId \<noteq> []"
    and "ws b = Some OPEN"
  shows "let status = (case getString (oprop (asObject params) ''status'') of
                         None \<Rightarrow> ''completed''
                       | Some s \<Rightarrow> toLowerCase s);
             errorMessage = getString (oprop (asObject (oprop (asObject params) ''error'')) ''message'');
             turnId = (case extractTurnId params of Some t \<Rightarrow> t | None \<Rightarrow> randomUUID (draws b));
             fresh = randomUUID (case extractTurnId params of Some t \<Rightarrow> draws b | None \<Rightarrow> Suc (draws b))
         in framesSince b (forwardCodexNotification machineId now method params b) =
              [EventUpsert turnId machineId durangoThreadId
                 (Plan fresh turnId
                    (if status \<noteq> ''completed'' \<and> status \<noteq> ''success''
                     then turnEndedText status errorMessage
                     else stringify (notificationJson method params))
                    now)]"
  using assms
  by (simp add: forwardCodexNotification_def itemsForMethod_def Let_def drawId_def framesSince_def
      wire_send split: option.splits)

theorem turn_completed_forwarding_witness:
  "framesSince \<lparr>ws = Some OPEN, wire = [], threadBindings = [''c1'' \<mapsto> ''d1''], draws = 0\<rparr>
     (forwardCodexNotification ''m1'' 1000 ''Turn/Completed''
        (Some (JObj [(''threadId'', JStr ''c1''), (''turn'', JObj [(''turnId'', JStr ''t1'')]),
                     (''status'', JStr ''Failed''), (''error'', JObj [(''message'', JStr ''boom'')])]))
        \<lparr>ws = Some OPEN, wire = [], threadBindings = [''c1'' \<mapsto> ''d1''], draws = 0\<rparr>)
     = [EventUpsert ''t1'' ''m1'' ''d1''
          (Plan ''uuid-0'' ''t1''
             (''Turn ended with status '' @ [CHR 0x22] @ ''failed'' @ [CHR 0x22] @ '': boom.'') 1000)]"
proof -
  let ?b = "\<lparr>ws = Some OPEN, wire = [], threadBindings = [''c1'' \<mapsto> ''d1''], draws = 0\<rparr>"
  let ?p = "Some (JObj [(''threadId'', JStr ''c1''), (''turn'', JObj [(''turnId'', JStr ''t1'')]),
                     (''status'', JStr ''Failed''), (''error'', JObj [(''message'', JStr ''boom'')])])"
  have m: "toLowerCase ''Turn/Completed'' = ''turn/completed''" by code_simp
  have t: "extractThreadId ?p = Some ''c1''" by code_simp
  have bnd: "threadBindings ?b ''c1'' = Some ''d1''" by simp
  have ne: "''d1'' \<noteq> []" by simp
  have o: "ws ?b = Some OPEN" by simp
  have tu: "extractTurnId ?p = Some ''t1''" by code_simp
  have st: "toLowerCase ''Failed'' = ''failed''" by code_simp
  have u: "randomUUID 0 = ''uuid-0''" by code_simp
  show ?thesis
    using turn_completed_forwarding [OF m t bnd ne o, of "''m1''" 1000]
    by (simp add: Let_def tu st u oprop_def turnEndedText_def)
qed

subsection \<open>The ack trail of a dispatch (C1)\<close>

lemma hydrateResponse_advances:
  "\<exists>out. wire (hy_bridge (hydrateResponse mid now tid response b)) = wire b @ out \<and>
         ws (hy_bridge (hydrateResponse mid now tid response b)) = ws b \<and>
         (if ws b = Some OPEN then ackTrail out = [] else out = [])"
proof -
  obtain turns d where ex: "extractTurnsFromThreadReadResponse response (draws b) = (turns, d)"
    by (cases "extractTurnsFromThreadReadResponse response (draws b)")
  define h0 where
    "h0 = \<lparr>hy_bridge = b\<lparr>draws := d\<rparr>, hy_timestamp = startTimestamp now turns,
           hy_importedItemCount = 0, hy_importedTurnItemCount = 0, hy_hasRunningActivity = False\<rparr>"
  have h: "hydrateResponse mid now tid response b = hydrateTurns mid tid turns h0"
    by (simp add: hydrateResponse_def ex h0_def)
  have "advances h0 (hydrateTurns mid tid turns h0)" by (rule hydrateTurns_advances)
  then show ?thesis
    unfolding h advances_def by (auto simp: h0_def)
qed

lemma ackTrail_hydrateResponse:
  "ackTrail (wire (hy_bridge (hydrateResponse mid now tid response b))) = ackTrail (wire b)"
proof -
  obtain out where w: "wire (hy_bridge (hydrateResponse mid now tid response b)) = wire b @ out"
    and a: "if ws b = Some OPEN then ackTrail out = [] else out = []"
    using hydrateResponse_advances by blast
  show ?thesis using a by (simp add: w split: if_splits)
qed

lemma ws_hydrateResponse [simp]:
  "ws (hy_bridge (hydrateResponse mid now tid response b)) = ws b"
  using hydrateResponse_advances [of mid now tid response b] by auto

lemma prefix_hydrateResponse:
  "prefix (wire b) (wire (hy_bridge (hydrateResponse mid now tid response b)))"
  using hydrateResponse_advances [of mid now tid response b] by auto

lemma ackTrail_framesSince:
  "prefix (wire b) (wire b') \<Longrightarrow> ackTrail (wire b') = ackTrail (wire b) @ ackTrail (framesSince b b')"
  by (auto simp: prefix_def framesSince_def)

lemma ws_ack [simp]: "ws (ack action status payload err b) = ws b"
  by (simp add: ack_def)

lemma wire_ack:
  "wire (ack action status payload err b) =
     wire b @ (if ws b = Some OPEN
               then [DispatchAck (requestIdOf action) (machineIdOf action) status payload err] else [])"
  by (simp add: ack_def wire_send)

text \<open>The acks the \<^verbatim>\<open>try\<close> block adds, for each way it can end.\<close>

lemma dispatchBody_trail:
  "ws (snd (dispatchBody w cfg now action b)) = ws b \<and>
   prefix (wire b) (wire (snd (dispatchBody w cfg now action b))) \<and>
   ackTrail (wire (snd (dispatchBody w cfg now action b))) =
     ackTrail (wire b) @
       (if ws b \<noteq> Some OPEN \<or> isOtherAction action then []
        else (case fst (dispatchBody w cfg now action b) of
                Some e \<Rightarrow> [(AckRunning, None)]
              | None \<Rightarrow> [(AckRunning, None), (AckCompleted, None)]))"
proof (cases action)
  case (ThreadHydrateAction r m threadId codexThreadId)
  define b1 where "b1 = ack (ThreadHydrateAction r m threadId codexThreadId) AckRunning None None b"
  define b2 where "b2 = b1\<lparr>threadBindings := (threadBindings b1)(codexThreadId \<mapsto> threadId)\<rparr>"
  have w2: "wire b2 = wire b @ (if ws b = Some OPEN then [DispatchAck r m AckRunning None None] else [])"
    and o2: "ws b2 = ws b"
    by (simp_all add: b2_def b1_def wire_ack)
  have no: "\<not> isOtherAction action"
    by (simp add: ThreadHydrateAction)
  show ?thesis
  proof (cases "threadReadResult w")
    case (Inl e)
    then have "dispatchBody w cfg now action b = (Some e, b2)"
      by (simp add: ThreadHydrateAction Let_def b2_def b1_def)
    then show ?thesis
      by (simp add: w2 o2 no)
  next
    case (Inr response)
    define h where "h = hydrateResponse cfg now threadId response b2"
    have body: "dispatchBody w cfg now action b =
        (None, ack (ThreadHydrateAction r m threadId codexThreadId) AckCompleted
                 (Some (JObj [(''state'', JStr ''hydrated''),
                              (''importedItemCount'', JNum (int (hy_importedItemCount h)))]))
                 None (hy_bridge h))"
      by (simp add: ThreadHydrateAction Let_def Inr h_def b2_def b1_def)
    have oh: "ws (hy_bridge h) = ws b"
      by (simp add: h_def o2)
    have ph: "prefix (wire b2) (wire (hy_bridge h))"
      unfolding h_def by (rule prefix_hydrateResponse)
    have ah: "ackTrail (wire (hy_bridge h)) = ackTrail (wire b2)"
      unfolding h_def by (rule ackTrail_hydrateResponse)
    have "prefix (wire b) (wire b2)" by (simp add: w2)
    with ph have pb: "prefix (wire b) (wire (hy_bridge h))" by (rule prefix_order.trans [rotated])
    show ?thesis
      using pb by (simp add: body wire_ack oh ah w2 no)
  qed
qed (auto simp: Let_def wire_ack split: sum.splits)

text \<open>
  C1: the acks that \<^verbatim>\<open>handleDispatch\<close> puts on the wire for one request are a prefix of
  accepted, running, then completed or failed. On an open socket the trail is accepted,
  running, completed when the body returns (accepted alone for a request of no known
  type), and accepted, running, failed with error code \<^verbatim>\<open>APP_SERVER_ERROR\<close> and the
  error's message when anything in the body throws; completed and failed never both occur
  and nothing follows them.
\<close>

theorem dispatch_ack_trail:
  "let trail = ackTrail (framesSince b (handleDispatch w cfg now action b)) in
     (ws b = Some OPEN \<longrightarrow>
        trail =
          (case thrownBy w cfg now action b of
             Some e \<Rightarrow> [(Accepted, None), (AckRunning, None),
                        (AckFailed, Some (''APP_SERVER_ERROR'', errorMessageOf e))]
           | None \<Rightarrow>
               if isOtherAction action then [(Accepted, None)]
               else [(Accepted, None), (AckRunning, None), (AckCompleted, None)])) \<and>
     (\<exists>terminal \<in> {AckCompleted, AckFailed}. prefix (map fst trail) [Accepted, AckRunning, terminal])"
proof -
  define b1 where "b1 = ack action Accepted None None b"
  define r where "r = dispatchBody w cfg now action b1"
  define trail where "trail = ackTrail (framesSince b (handleDispatch w cfg now action b))"
  have hd: "handleDispatch w cfg now action b =
      (case fst r of
         None \<Rightarrow> snd r
       | Some e \<Rightarrow> ack action AckFailed None (Some (''APP_SERVER_ERROR'', errorMessageOf e)) (snd r))"
    by (simp add: handleDispatch_def Let_def b1_def r_def split: prod.splits option.splits)
  have thrown: "thrownBy w cfg now action b = fst r"
    by (simp add: thrownBy_def r_def b1_def)
  from dispatchBody_trail [of w cfg now action b1]
  have ws_r: "ws (snd r) = ws b"
    and pre_r: "prefix (wire b1) (wire (snd r))"
    and trail_r: "ackTrail (wire (snd r)) =
       ackTrail (wire b1) @
         (if ws b \<noteq> Some OPEN \<or> isOtherAction action then []
          else (case fst r of
                  Some e \<Rightarrow> [(AckRunning, None)]
                | None \<Rightarrow> [(AckRunning, None), (AckCompleted, None)]))"
    by (simp_all add: r_def b1_def)
  have pre_b: "prefix (wire b) (wire b1)"
    by (simp add: b1_def wire_ack)
  have pre_h: "prefix (wire b) (wire (handleDispatch w cfg now action b))"
    using pre_b pre_r by (auto simp: hd wire_ack prefix_def split: option.splits)
  have all: "ackTrail (wire (handleDispatch w cfg now action b)) =
      ackTrail (wire b) @
        (if ws b \<noteq> Some OPEN then []
         else (case fst r of
                 Some e \<Rightarrow> [(Accepted, None), (AckRunning, None),
                            (AckFailed, Some (''APP_SERVER_ERROR'', errorMessageOf e))]
               | None \<Rightarrow>
                   if isOtherAction action then [(Accepted, None)]
                   else [(Accepted, None), (AckRunning, None), (AckCompleted, None)]))"
  proof (cases "fst r")
    case None
    then show ?thesis
      by (simp add: hd trail_r b1_def wire_ack)
  next
    case (Some e)
    have "\<not> isOtherAction action"
      using Some by (cases action) (simp_all add: r_def)
    with Some show ?thesis
      by (simp add: hd trail_r wire_ack ws_r) (simp add: b1_def wire_ack)
  qed
  have trail: "trail =
        (if ws b \<noteq> Some OPEN then []
         else (case fst r of
                 Some e \<Rightarrow> [(Accepted, None), (AckRunning, None),
                            (AckFailed, Some (''APP_SERVER_ERROR'', errorMessageOf e))]
               | None \<Rightarrow>
                   if isOtherAction action then [(Accepted, None)]
                   else [(Accepted, None), (AckRunning, None), (AckCompleted, None)]))"
    using ackTrail_framesSince [OF pre_h] all by (simp add: trail_def)
  have pre: "\<exists>terminal \<in> {AckCompleted, AckFailed}. prefix (map fst trail) [Accepted, AckRunning, terminal]"
    unfolding trail by (auto split: option.splits)
  show ?thesis
    unfolding Let_def trail_def [symmetric] thrown using trail pre by simp
qed

theorem dispatch_ack_trail_witness:
  "ackTrail (framesSince \<lparr>ws = Some OPEN, wire = [], threadBindings = Map.empty, draws = 0\<rparr>
     (handleDispatch
        \<lparr>processCwd = ''/'', tmpdir = ''/tmp'', mkdirResult = None, writeFileResult = (\<lambda>p. None),
         threadStartResult = Inr ''c1'', turnStartResult = Inr (), threadReadResult = Inr JNull,
         listModelsResult = Inr (JArr []), turnInterruptResult = Inl (Error ''boom'')\<rparr>
        ''m1'' 1000 (TurnInterruptAction ''r1'' ''m1'' ''th1'' ''c1'')
        \<lparr>ws = Some OPEN, wire = [], threadBindings = Map.empty, draws = 0\<rparr>))
     = [(Accepted, None), (AckRunning, None), (AckFailed, Some (''APP_SERVER_ERROR'', ''boom''))] \<and>
   ackTrail (framesSince \<lparr>ws = Some OPEN, wire = [], threadBindings = Map.empty, draws = 0\<rparr>
     (handleDispatch
        \<lparr>processCwd = ''/'', tmpdir = ''/tmp'', mkdirResult = None, writeFileResult = (\<lambda>p. None),
         threadStartResult = Inr ''c1'', turnStartResult = Inr (), threadReadResult = Inr JNull,
         listModelsResult = Inr (JArr []), turnInterruptResult = Inl (Error ''boom'')\<rparr>
        ''m1'' 1000 (ModelListAction ''r2'' ''m1'')
        \<lparr>ws = Some OPEN, wire = [], threadBindings = Map.empty, draws = 0\<rparr>))
     = [(Accepted, None), (AckRunning, None), (AckCompleted, None)]"
  using dispatch_ack_trail
          [of "\<lparr>ws = Some OPEN, wire = [], threadBindings = Map.empty, draws = 0\<rparr>"
              "\<lparr>processCwd = ''/'', tmpdir = ''/tmp'', mkdirResult = None, writeFileResult = (\<lambda>p. None),
                threadStartResult = Inr ''c1'', turnStartResult = Inr (), threadReadResult = Inr JNull,
                listModelsResult = Inr (JArr []), turnInterruptResult = Inl (Error ''boom'')\<rparr>"
              "''m1''" 1000 "TurnInterruptAction ''r1'' ''m1'' ''th1'' ''c1''"]
        dispatch_ack_trail
          [of "\<lparr>ws = Some OPEN, wire = [], threadBindings = Map.empty, draws = 0\<rparr>"
              "\<lparr>processCwd = ''/'', tmpdir = ''/tmp'', mkdirResult = None, writeFileResult = (\<lambda>p. None),
                threadStartResult = Inr ''c1'', turnStartResult = Inr (), threadReadResult = Inr JNull,
                listModelsResult = Inr (JArr []), turnInterruptResult = Inl (Error ''boom'')\<rparr>"
              "''m1''" 1000 "ModelListAction ''r2'' ''m1''"]
  by (simp add: Let_def thrownBy_def)

subsection \<open>Resolving paths\<close>

lemma splitSlash_nonempty [simp]: "splitSlash s \<noteq> []"
  by (induction s) (auto split: list.splits)

lemma splitSlash_no_slash: "CHR ''/'' \<notin> set s \<Longrightarrow> splitSlash s = [s]"
  by (induction s) auto

lemma splitSlash_append:
  "splitSlash (xs @ CHR ''/'' # ys) = splitSlash xs @ splitSlash ys"
proof (induction xs)
  case Nil
  show ?case by simp
next
  case (Cons c xs)
  obtain s ss where sp: "splitSlash xs = s # ss"
    by (cases "splitSlash xs") simp_all
  show ?case by (simp add: Cons.IH sp)
qed

lemma splitSlash_elems: "s \<in> set (splitSlash p) \<Longrightarrow> CHR ''/'' \<notin> set s"
proof (induction p arbitrary: s)
  case Nil
  then show ?case by simp
next
  case (Cons c p)
  obtain t ts where sp: "splitSlash p = t # ts"
    by (cases "splitSlash p") simp_all
  show ?case
    using Cons.prems Cons.IH by (auto simp: sp split: if_splits)
qed

lemma join_with_Cons:
  "ys \<noteq> [] \<Longrightarrow> join_with sep (x # ys) = x @ sep @ join_with sep ys"
  by (cases ys) simp_all

lemma join_with_append:
  "xs \<noteq> [] \<Longrightarrow> ys \<noteq> [] \<Longrightarrow>
     join_with sep (xs @ ys) = join_with sep xs @ sep @ join_with sep ys"
  by (induction sep xs rule: join_with.induct) (simp_all add: join_with_Cons)

lemma splitSlash_join:
  "list_all plainSegment segs \<Longrightarrow> segs \<noteq> [] \<Longrightarrow> splitSlash (join_with ''/'' segs) = segs"
proof (induction segs)
  case Nil
  then show ?case by simp
next
  case (Cons x segs)
  have x: "CHR ''/'' \<notin> set x" using Cons.prems(1) by (simp add: plainSegment_def)
  show ?case
  proof (cases "segs = []")
    case True
    then show ?thesis by (simp add: splitSlash_no_slash [OF x])
  next
    case False
    have "splitSlash (join_with ''/'' (x # segs)) = splitSlash (x @ CHR ''/'' # join_with ''/'' segs)"
      by (simp add: join_with_Cons [OF False])
    also have "\<dots> = splitSlash x @ splitSlash (join_with ''/'' segs)"
      by (rule splitSlash_append)
    also have "\<dots> = x # segs"
      using Cons.IH Cons.prems(1) False by (simp add: splitSlash_no_slash [OF x])
    finally show ?thesis .
  qed
qed

lemma join_with_Nil_iff:
  "join_with sep (x # xs) = [] \<Longrightarrow> x = []"
  by (cases xs) simp_all

lemma join_with_last_nonempty:
  "segs \<noteq> [] \<Longrightarrow> last segs \<noteq> [] \<Longrightarrow> join_with sep segs \<noteq> []"
  by (induction sep segs rule: join_with.induct) auto

lemma last_join_with:
  "segs \<noteq> [] \<Longrightarrow> last segs \<noteq> [] \<Longrightarrow> last (join_with sep segs) = last (last segs)"
proof (induction sep segs rule: join_with.induct)
  case (3 sep x y ys)
  have "join_with sep (y # ys) \<noteq> []"
    using "3.prems" join_with_last_nonempty [of "y # ys" sep] by simp
  then show ?case using 3 by simp
qed simp_all

lemma join_with_nonempty:
  "list_all plainSegment segs \<Longrightarrow> segs \<noteq> [] \<Longrightarrow> join_with ''/'' segs \<noteq> []"
  by (cases segs) (auto simp: plainSegment_def dest: join_with_Nil_iff)


lemma join_splitSlash: "join_with ''/'' (splitSlash p) = p"
proof (induction p)
  case Nil
  show ?case by simp
next
  case (Cons c p)
  obtain s ss where sp: "splitSlash p = s # ss"
    by (cases "splitSlash p") simp_all
  show ?case
  proof (cases "c = CHR ''/''")
    case True
    then show ?thesis using Cons.IH by (simp add: sp)
  next
    case False
    then show ?thesis using Cons.IH by (cases ss) (simp_all add: sp)
  qed
qed

lemma splitSlash_snoc: "splitSlash (p @ ''/'') = splitSlash p @ [[]]"
  using splitSlash_append [of p "[]"] by simp

text \<open>
  The segment loop of \<^verbatim>\<open>normalizeString\<close> below the root is the walk of the specification.
\<close>

lemma foldl_segStep_walk:
  "''..'' \<notin> set acc \<Longrightarrow> foldl (segStep False) acc xs = walk (rev acc) xs"
proof (induction xs arbitrary: acc)
  case Nil
  show ?case by simp
next
  case (Cons x xs)
  show ?case
  proof (cases "x = [] \<or> x = ''.''")
    case True
    then show ?thesis using Cons.IH [OF Cons.prems] by (auto simp: segStep_def)
  next
    case False
    show ?thesis
    proof (cases "x = ''..''")
      case True
      have keep: "''..'' \<notin> set (butlast acc)"
        using Cons.prems by (auto dest: in_set_butlastD)
      have lastne: "acc \<noteq> [] \<Longrightarrow> last acc \<noteq> ''..''"
        using Cons.prems last_in_set by metis
      have step: "segStep False acc ''..'' = butlast acc"
        using lastne by (cases "acc = []") (simp_all add: segStep_def)
      have "tl (rev acc) = rev (butlast acc)"
        by (induction acc rule: rev_induct) simp_all
      then show ?thesis
        using Cons.IH [OF keep] True by (simp add: step)
    next
      case other: False
      have step: "segStep False acc x = acc @ [x]"
        using False other by (simp add: segStep_def)
      have keep: "''..'' \<notin> set (acc @ [x])"
        using Cons.prems other by simp
      show ?thesis
        using Cons.IH [OF keep] False other by (simp add: step)
    qed
  qed
qed

lemma normalizeString_directories: "normalizeString False p = join_with ''/'' (directories p)"
  using foldl_segStep_walk [of "[]" "splitSlash p"] by (simp add: normalizeString_def directories_def)

lemma walk_append: "walk passed (xs @ ys) = walk (rev (walk passed xs)) ys"
  by (induction xs arbitrary: passed) simp_all

lemma walk_skip [simp]: "walk passed (xs @ [[]]) = walk passed xs"
  by (simp add: walk_append)

lemma walk_plain_segments:
  "list_all plainSegment ys \<Longrightarrow> walk passed ys = rev passed @ ys"
  by (induction ys arbitrary: passed) (auto simp: plainSegment_def)

lemma walk_plain:
  "list_all plainSegment passed \<Longrightarrow> (\<And>s. s \<in> set xs \<Longrightarrow> CHR ''/'' \<notin> set s) \<Longrightarrow>
     list_all plainSegment (walk passed xs)"
proof (induction xs arbitrary: passed)
  case Nil
  then show ?case by simp
next
  case (Cons x xs)
  have tl: "list_all plainSegment (tl passed)"
    using Cons.prems(1) by (cases passed) simp_all
  have "CHR ''/'' \<notin> set x"
    using Cons.prems(2) by simp
  then have "x \<noteq> [] \<Longrightarrow> x \<noteq> ''.'' \<Longrightarrow> x \<noteq> ''..'' \<Longrightarrow> plainSegment x"
    by (simp add: plainSegment_def)
  then have push: "x \<noteq> [] \<Longrightarrow> x \<noteq> ''.'' \<Longrightarrow> x \<noteq> ''..'' \<Longrightarrow> list_all plainSegment (x # passed)"
    using Cons.prems(1) by simp
  show ?case
    using Cons.IH [OF Cons.prems(1)] Cons.IH [OF tl] Cons.IH [OF push] Cons.prems(2)
    by simp
qed

lemma directories_plain: "list_all plainSegment (directories p)"
  unfolding directories_def by (rule walk_plain) (simp_all add: splitSlash_elems)

lemma directories_snoc [simp]: "directories (p @ ''/'') = directories p"
  by (simp add: directories_def splitSlash_snoc)

text \<open>The directories of the absolute path through some directories are those directories.\<close>

lemma directories_absPath:
  assumes "list_all plainSegment segs"
  shows "directories (absPath segs) = segs"
proof (cases "segs = []")
  case True
  then show ?thesis by (simp add: directories_def absPath_def)
next
  case False
  have "splitSlash (absPath segs) = [] # segs"
    using splitSlash_append [of "[]" "join_with ''/'' segs"] splitSlash_join [OF assms False]
    by (simp add: absPath_def)
  then show ?thesis
    using walk_plain_segments [OF assms, of "[]"] by (simp add: directories_def)
qed

text \<open>\<^verbatim>\<open>path.resolve\<close> gives the absolute path through the directories of the placed path.\<close>

lemma path_resolve_directories:
  assumes "isAbsolute procCwd"
  shows "path_resolve procCwd p = absPath (directories (placed procCwd p))"
proof (cases "isAbsolute p")
  case True
  then have "take 1 p = ''/''"
    by (cases p) (simp_all add: isAbsolute_def)
  then show ?thesis
    using True by (simp add: path_resolve_def placed_def absPath_def normalizeString_directories)
next
  case False
  then have rel: "take 1 p \<noteq> ''/''"
    by (cases p) (simp_all add: isAbsolute_def)
  have "directories (procCwd @ ''/'' @ (if p = [] then [] else p @ ''/'')) =
        directories (procCwd @ ''/'' @ p)"
  proof (cases "p = []")
    case True
    then show ?thesis by simp
  next
    case ne: False
    have "procCwd @ ''/'' @ p @ ''/'' = (procCwd @ ''/'' @ p) @ ''/''" by simp
    then show ?thesis using ne by (simp only: directories_snoc if_False)
  qed
  then show ?thesis
    using False rel assms
    by (simp add: path_resolve_def placed_def absPath_def normalizeString_directories Let_def)
qed

text \<open>
  \<^verbatim>\<open>path.join\<close> of an absolute path and plain segments is the absolute path through the
  directories of the first and then the segments.
\<close>

lemma splitSlash_under:
  assumes "list_all plainSegment rest" and "rest \<noteq> []"
  shows "splitSlash (base @ ''/'' @ join_with ''/'' rest) = splitSlash base @ rest"
  using splitSlash_append [of base "join_with ''/'' rest"] splitSlash_join [OF assms] by simp

lemma normalize_under:
  assumes abs: "isAbsolute base" and rest: "list_all plainSegment rest" and ne: "rest \<noteq> []"
  shows "path_normalize (base @ ''/'' @ join_with ''/'' rest) = absPath (directories base @ rest)"
proof -
  define p where "p = base @ ''/'' @ join_with ''/'' rest"
  have sp: "splitSlash p = splitSlash base @ rest"
    unfolding p_def by (rule splitSlash_under [OF rest ne])
  have dirs: "directories p = directories base @ rest"
    by (simp add: directories_def sp walk_append walk_plain_segments [OF rest])
  have q: "normalizeString False p = join_with ''/'' (directories base @ rest)"
    by (simp add: normalizeString_directories dirs)
  have allp: "list_all plainSegment (directories base @ rest)"
    using rest directories_plain by simp
  have qne: "join_with ''/'' (directories base @ rest) \<noteq> []"
    by (rule join_with_nonempty [OF allp]) (simp add: ne)
  have lastseg: "last rest \<noteq> []" "CHR ''/'' \<notin> set (last rest)"
    using rest ne by (auto simp: list_all_iff plainSegment_def)
  have "last p = last (last rest)"
    using last_join_with [OF ne lastseg(1), of "''/''"] join_with_nonempty [OF rest ne]
    by (simp add: p_def)
  moreover have "last (last rest) \<in> set (last rest)"
    using lastseg(1) by (rule last_in_set)
  ultimately have notrail: "last p \<noteq> CHR ''/''"
    using lastseg(2) by metis
  have absp: "isAbsolute p" using abs by (cases base) (simp_all add: p_def isAbsolute_def)
  have pne: "p \<noteq> []" using abs by (cases base) (simp_all add: p_def isAbsolute_def)
  have "path_normalize p = absPath (directories base @ rest)"
    unfolding path_normalize_def Let_def using absp pne notrail qne
    by (simp add: q absPath_def)
  then show ?thesis unfolding p_def .
qed

subsection \<open>Binding agent threads to projects (C8)\<close>













subsection \<open>Attachment files (C7)\<close>

lemma isDigit_digit_char: "d < 10 \<Longrightarrow> isDigit (digit_char d)"
  by (simp add: isDigit_def digit_char_def)

lemma show_nat_digits: "list_all isDigit (show_nat n)"
proof (induction n rule: show_nat.induct)
  case (1 n)
  show ?case
  proof (cases "n < 10")
    case True
    then show ?thesis by (subst show_nat.simps) (simp add: isDigit_digit_char)
  next
    case False
    then show ?thesis
      using 1 by (subst show_nat.simps) (simp add: isDigit_digit_char)
  qed
qed

lemma show_nat_nonempty: "show_nat n \<noteq> []"
  by (subst show_nat.simps) simp

lemma padStart2_two_digits:
  assumes "n < 100"
  shows "\<exists>d1 d2. padStart2 (show_nat n) = [d1, d2] \<and> isDigit d1 \<and> isDigit d2"
proof (cases "n < 10")
  case True
  then have "show_nat n = [digit_char n]" by (subst show_nat.simps) simp
  moreover have "isDigit (CHR ''0'')" by (simp add: isDigit_def)
  ultimately show ?thesis
    using True by (simp add: padStart2_def isDigit_digit_char)
next
  case False
  then have "n div 10 < 10" using assms by simp
  then have "show_nat (n div 10) = [digit_char (n div 10)]" by (subst show_nat.simps) simp
  then have "show_nat n = [digit_char (n div 10), digit_char (n mod 10)]"
    using False by (subst show_nat.simps) simp
  then show ?thesis
    using \<open>n div 10 < 10\<close> by (simp add: padStart2_def isDigit_digit_char)
qed

lemma padStart2_digits: "list_all isDigit (padStart2 (show_nat n))"
proof -
  have "isDigit (CHR ''0'')" by (simp add: isDigit_def)
  then show ?thesis
    using show_nat_digits [of n] by (auto simp: padStart2_def list_all_iff)
qed

lemma safeChar_underscore: "safeChar (CHR ''_'')"
  by (simp add: safeChar_def)

lemma attachment_default_safe: "list_all safeChar ''attachment''"
  by (simp add: safeChar_def)

text \<open>The safe name is never empty, at most 120 characters long, and made of safe characters.\<close>

lemma sanitizeAttachmentName_safe:
  "sanitizeAttachmentName rawName \<noteq> [] \<and>
   length (sanitizeAttachmentName rawName) \<le> 120 \<and>
   list_all safeChar (sanitizeAttachmentName rawName)"
proof -
  define baseName where "baseName = path_basename (if rawName \<noteq> [] then rawName else ''attachment'')"
  define sanitized where "sanitized = map (\<lambda>c. if safeChar c then c else CHR ''_'') baseName"
  have s: "sanitizeAttachmentName rawName =
      (if length sanitized > 120 then take 120 sanitized
       else if sanitized \<noteq> [] then sanitized else ''attachment'')"
    by (simp add: sanitizeAttachmentName_def Let_def sanitized_def baseName_def)
  have safe: "list_all safeChar sanitized"
    by (auto simp: sanitized_def list_all_iff safeChar_underscore)
  have taken: "list_all safeChar (take 120 sanitized)"
    using safe by (auto simp: list_all_iff dest: in_set_takeD)
  show ?thesis
    unfolding s using safe taken attachment_default_safe by auto
qed

lemma digit_not_slash: "isDigit c \<Longrightarrow> c \<noteq> CHR ''/'' \<and> c \<noteq> CHR ''-''"
  by (auto simp: isDigit_def)

lemma safe_not_slash: "safeChar c \<Longrightarrow> c \<noteq> CHR ''/''"
  by (auto simp: safeChar_def)

lemma attachmentFileName_plain: "plainSegment (attachmentFileName i a)"
proof -
  define num where "num = padStart2 (show_nat (i + 1))"
  define name where "name = sanitizeAttachmentName (at_name a)"
  have f: "attachmentFileName i a = num @ ''-'' @ name"
    by (simp add: attachmentFileName_def num_def name_def)
  have n1: "CHR ''/'' \<notin> set num"
    using padStart2_digits [of "i + 1"] digit_not_slash by (auto simp: num_def list_all_iff)
  have n2: "CHR ''/'' \<notin> set name"
    using sanitizeAttachmentName_safe [of "at_name a"] safe_not_slash
    by (auto simp: name_def list_all_iff)
  have dash: "CHR ''-'' \<in> set (attachmentFileName i a)"
    by (simp add: f)
  have "attachmentFileName i a \<noteq> ''.''" "attachmentFileName i a \<noteq> ''..''"
    using dash by auto
  moreover have "CHR ''/'' \<notin> set (attachmentFileName i a)"
    using n1 n2 by (simp add: f)
  moreover have "attachmentFileName i a \<noteq> []"
    by (simp add: f)
  ultimately show ?thesis by (simp add: plainSegment_def)
qed

lemma attachmentFileName_matches:
  assumes "i < 99"
  shows "matchesPattern (attachmentFileName i a)"
proof -
  from padStart2_two_digits [of "i + 1"] assms obtain d1 d2 where
    "padStart2 (show_nat (i + 1)) = [d1, d2]" "isDigit d1" "isDigit d2"
    by auto
  then show ?thesis
    using sanitizeAttachmentName_safe [of "at_name a"]
    by (simp add: attachmentFileName_def)
qed

lemma path_join_under:
  assumes "list_all plainSegment segs" and "plainSegment name"
  shows "path_join [absPath segs, name] = absPath (segs @ [name])"
proof -
  have keep: "filter (\<lambda>a. a \<noteq> []) [absPath segs, name] = [absPath segs, name]"
    using assms(2) by (simp add: absPath_def plainSegment_def)
  have abs: "isAbsolute (absPath segs)"
    by (simp add: absPath_def isAbsolute_def)
  have "path_normalize (absPath segs @ ''/'' @ join_with ''/'' [name]) =
          absPath (directories (absPath segs) @ [name])"
    by (rule normalize_under [OF abs]) (simp_all add: assms(2))
  then show ?thesis
    unfolding path_join_def Let_def keep by (simp add: directories_absPath [OF assms(1)])
qed

text \<open>\<^verbatim>\<open>path.basename\<close> gives the last segment that is not empty.\<close>

lemma path_basename_segments:
  "(\<And>s. s \<in> set segs \<Longrightarrow> CHR ''/'' \<notin> set s) \<Longrightarrow> segs \<noteq> [] \<Longrightarrow>
     path_basename (join_with ''/'' segs) =
       (case rev (filter (\<lambda>seg. seg \<noteq> []) segs) of [] \<Rightarrow> [] | name # before \<Rightarrow> name)"
proof (induction segs rule: rev_induct)
  case Nil
  then show ?case by simp
next
  case (snoc x segs)
  have x: "CHR ''/'' \<notin> set x" using snoc.prems(1) by simp
  have plainx: "path_basename x = x"
  proof -
    define y where "y = rev x"
    have y: "CHR ''/'' \<notin> set y" using x by (simp add: y_def)
    then have d: "dropWhile (\<lambda>c. c = CHR ''/'') y = y"
      by (cases y) auto
    have t: "takeWhile (\<lambda>c. c \<noteq> CHR ''/'') y = y"
      using y by (auto simp: takeWhile_eq_all_conv)
    have "rev (takeWhile (\<lambda>c. c \<noteq> CHR ''/'') (dropWhile (\<lambda>c. c = CHR ''/'') y)) = x"
      unfolding d t by (simp add: y_def)
    then show ?thesis unfolding path_basename_def y_def .
  qed
  show ?case
  proof (cases "segs = []")
    case True
    then show ?thesis using plainx by simp
  next
    case False
    have j: "join_with ''/'' (segs @ [x]) = join_with ''/'' segs @ ''/'' @ x"
      using join_with_append [OF False, of "[x]" "''/''"] by simp
    have ih: "path_basename (join_with ''/'' segs) =
                (case rev (filter (\<lambda>seg. seg \<noteq> []) segs) of [] \<Rightarrow> [] | name # before \<Rightarrow> name)"
      using snoc.IH snoc.prems(1) False by simp
    show ?thesis
    proof (cases "x = []")
      case True
      have "join_with ''/'' (segs @ [[]]) = join_with ''/'' segs @ ''/''"
        using j True by simp
      then have "path_basename (join_with ''/'' (segs @ [[]])) = path_basename (join_with ''/'' segs)"
        by (simp add: path_basename_def)
      then show ?thesis using ih True by simp
    next
      case ne: False
      then obtain c cs where r: "rev x = c # cs" by (cases "rev x") simp_all
      have "c \<in> set x" using r by (metis list.set_intros(1) set_rev)
      then have c: "c \<noteq> CHR ''/''" using x by auto
      have "takeWhile (\<lambda>c. c \<noteq> CHR ''/'') (rev x @ CHR ''/'' # rev (join_with ''/'' segs)) = rev x"
        using x by (auto simp: takeWhile_tail)
      moreover have "rev cs @ [c] = x"
        using r by (metis rev.simps(2) rev_rev_ident)
      ultimately have "path_basename (join_with ''/'' segs @ ''/'' @ x) = x"
        using c by (simp add: path_basename_def r)
      then show ?thesis using ne by (simp add: j)
    qed
  qed
qed

lemma path_basename_spec: "path_basename p = specBaseName p"
  using path_basename_segments [of "splitSlash p"] splitSlash_elems [of _ p]
  by (simp add: join_splitSlash specBaseName_def)

text \<open>The code's safe name, position and file name are those of the specification.\<close>

lemma sanitizeAttachmentName_spec: "sanitizeAttachmentName rawName = specSafeName rawName"
proof (cases "rawName = []")
  case True
  have "path_basename ''attachment'' = ''attachment''" by code_simp
  moreover have "specBaseName [] = []" by (simp add: specBaseName_def)
  ultimately show ?thesis
    using True by (simp add: sanitizeAttachmentName_def specSafeName_def safeChar_def)
next
  case False
  define replaced where "replaced = map (\<lambda>c. if safeChar c then c else CHR ''_'') (specBaseName rawName)"
  have "sanitizeAttachmentName rawName =
          (if length replaced > 120 then take 120 replaced
           else if replaced \<noteq> [] then replaced else ''attachment'')"
    using False by (simp add: sanitizeAttachmentName_def Let_def replaced_def path_basename_spec)
  moreover have "specSafeName rawName =
          (if take 120 replaced = [] then ''attachment'' else take 120 replaced)"
    by (simp add: specSafeName_def Let_def replaced_def)
  ultimately show ?thesis by auto
qed

lemma show_nat_length: "10 \<le> n \<Longrightarrow> 2 \<le> length (show_nat n)"
proof -
  assume "10 \<le> n"
  then have "show_nat n = show_nat (n div 10) @ [digit_char (n mod 10)]"
    by (subst show_nat.simps) simp
  then show ?thesis
    using show_nat_nonempty [of "n div 10"] by (cases "show_nat (n div 10)") simp_all
qed

lemma padStart2_spec: "padStart2 (show_nat (index + 1)) = specPosition index"
proof (cases "index + 1 < 10")
  case True
  then have "show_nat (index + 1) = [digit_char (index + 1)]" by (subst show_nat.simps) simp
  then show ?thesis using True by (simp add: padStart2_def specPosition_def)
next
  case False
  then have "2 \<le> length (show_nat (index + 1))" by (intro show_nat_length) simp
  then show ?thesis using False by (simp add: padStart2_def specPosition_def)
qed

lemma attachmentFileName_spec: "attachmentFileName i a = specFileName i a"
  by (simp only: attachmentFileName_def specFileName_def padStart2_spec sanitizeAttachmentName_spec)

text \<open>
  The upload directory: \<^verbatim>\<open>.durango/uploads/<requestId>\<close> below the directories of the base.
\<close>

lemma baseDirOf_spec:
  assumes "isAbsolute (tmpdir w)" and "isAbsolute (processCwd w)"
  shows "isAbsolute (baseDirOf w cwd) \<and> directories (baseDirOf w cwd) = directories (specBase w cwd)"
proof (cases "baseDirOf w cwd = tmpdir w \<and> specBase w cwd = tmpdir w")
  case True
  then show ?thesis using assms(1) by simp
next
  case False
  then obtain c where c: "cwd = Some c" "c \<noteq> []"
    by (cases cwd) (auto simp: baseDirOf_def specBase_def split: if_splits)
  have b: "baseDirOf w cwd = absPath (directories (placed (processCwd w) c))"
    using c by (simp add: baseDirOf_def path_resolve_directories [OF assms(2)])
  have s: "specBase w cwd = placed (processCwd w) c"
    using c by (simp add: specBase_def)
  show ?thesis
    unfolding b s by (simp add: directories_absPath directories_plain) (simp add: absPath_def isAbsolute_def)
qed

lemma attachmentDirOf_spec:
  assumes tmp: "isAbsolute (tmpdir w)" and cwd0: "isAbsolute (processCwd w)"
    and rid: "list_all plainSegment (splitSlash requestId)"
  shows "attachmentDirOf w cwd requestId =
           absPath (directories (specBase w cwd) @ [''.durango'', ''uploads''] @ splitSlash requestId)"
proof -
  define base where "base = baseDirOf w cwd"
  define rest where "rest = [''.durango'', ''uploads''] @ splitSlash requestId"
  have abs: "isAbsolute base" and dirs: "directories base = directories (specBase w cwd)"
    using baseDirOf_spec [OF tmp cwd0, of cwd] by (simp_all add: base_def)
  have bne: "base \<noteq> []" using abs by (auto simp: isAbsolute_def)
  have rne: "requestId \<noteq> []"
    using rid by (auto simp: plainSegment_def)
  have plain: "list_all plainSegment rest"
    using rid by (simp add: rest_def plainSegment_def)
  have "join_with ''/'' rest = ''.durango'' @ ''/'' @ ''uploads'' @ ''/'' @ join_with ''/'' (splitSlash requestId)"
    unfolding rest_def by (cases "splitSlash requestId") simp_all
  then have j: "join_with ''/'' [base, ''.durango'', ''uploads'', requestId] =
             base @ ''/'' @ join_with ''/'' rest"
    by (simp add: join_splitSlash)
  have keep: "filter (\<lambda>a. a \<noteq> []) [base, ''.durango'', ''uploads'', requestId] =
              [base, ''.durango'', ''uploads'', requestId]"
    using bne rne by simp
  have "path_normalize (base @ ''/'' @ join_with ''/'' rest) = absPath (directories base @ rest)"
    by (rule normalize_under [OF abs plain]) (simp add: rest_def)
  then show ?thesis
    unfolding attachmentDirOf_def base_def [symmetric] path_join_def Let_def keep j
    by (simp add: dirs rest_def)
qed

lemma materializeLoop_files:
  "prefix (map fst (fst (materializeLoop w dir k as)))
     (map (\<lambda>(i, a). path_join [dir, attachmentFileName i a]) (List.enumerate k as))"
proof (induction as arbitrary: k)
  case Nil
  show ?case by simp
next
  case (Cons a as)
  obtain files r where ml: "materializeLoop w dir (Suc k) as = (files, r)"
    by (cases "materializeLoop w dir (Suc k) as")
  show ?case
    using Cons.IH [of "Suc k"]
    by (simp add: Let_def ml split: option.splits)
qed

lemma materializeLoop_all_files:
  "(\<And>p. writeFileResult w p = None) \<Longrightarrow>
     map fst (fst (materializeLoop w dir k as)) =
       map (\<lambda>(i, a). path_join [dir, attachmentFileName i a]) (List.enumerate k as)"
proof (induction as arbitrary: k)
  case Nil
  show ?case by simp
next
  case (Cons a as)
  obtain files r where ml: "materializeLoop w dir (Suc k) as = (files, r)"
    by (cases "materializeLoop w dir (Suc k) as")
  show ?case
    using Cons.IH [OF Cons.prems, of "Suc k"] Cons.prems
    by (simp add: Let_def ml)
qed

text \<open>
  C7, as the claim states it, fails on the code. \<^verbatim>\<open>padStart(2, "0")\<close> pads to at least two
  digits, so the hundredth attachment of a list is named with three digits and does not
  match \<^verbatim>\<open>^\d{2}-[A-Za-z0-9._-]{1,120}$\<close>. And \<^verbatim>\<open>path.join\<close> resolves the request id as a
  relative path, so with the request id \<^verbatim>\<open>../../x\<close> the file is written outside
  \<^verbatim>\<open><base>/.durango/uploads/\<close>.
\<close>

theorem attachment_files_counterexample:
  "map fst (fst (materializeAttachmentInputs
     \<lparr>processCwd = ''/home/u'', tmpdir = ''/tmp'', mkdirResult = None, writeFileResult = (\<lambda>p. None),
      threadStartResult = Inr ''c1'', turnStartResult = Inr (), threadReadResult = Inr JNull,
      listModelsResult = Inr (JArr []), turnInterruptResult = Inr ()\<rparr>
     None ''r1''
     (Some (replicate 100 \<lparr>at_id = ''1'', at_name = ''a.png'', at_mimeType = ''image/png'',
              at_contentBase64 = ''AAAA'', at_kind = ImageKind\<rparr>)))) ! 99
     = ''/tmp/.durango/uploads/r1/100-a.png'' \<and>
   path_basename ''/tmp/.durango/uploads/r1/100-a.png'' = ''100-a.png'' \<and>
   \<not> matchesPattern ''100-a.png'' \<and>
   map fst (fst (materializeAttachmentInputs
     \<lparr>processCwd = ''/home/u'', tmpdir = ''/tmp'', mkdirResult = None, writeFileResult = (\<lambda>p. None),
      threadStartResult = Inr ''c1'', turnStartResult = Inr (), threadReadResult = Inr JNull,
      listModelsResult = Inr (JArr []), turnInterruptResult = Inr ()\<rparr>
     None ''../../x''
     (Some [\<lparr>at_id = ''1'', at_name = ''a.png'', at_mimeType = ''image/png'',
              at_contentBase64 = ''AAAA'', at_kind = ImageKind\<rparr>])))
     = [''/tmp/x/01-a.png''] \<and>
   \<not> prefix ''/tmp/.durango/uploads/'' ''/tmp/x/01-a.png''"
proof -
  let ?w = "\<lparr>processCwd = ''/home/u'', tmpdir = ''/tmp'', mkdirResult = None, writeFileResult = (\<lambda>p. None),
      threadStartResult = Inr ''c1'', turnStartResult = Inr (), threadReadResult = Inr JNull,
      listModelsResult = Inr (JArr []), turnInterruptResult = Inr ()\<rparr>"
  let ?a = "\<lparr>at_id = ''1'', at_name = ''a.png'', at_mimeType = ''image/png'',
              at_contentBase64 = ''AAAA'', at_kind = ImageKind\<rparr>"
  let ?g = "\<lambda>(i, a). path_join [attachmentDirOf ?w None ''r1'', attachmentFileName i a]"
  have "map fst (fst (materializeAttachmentInputs ?w None ''r1'' (Some (replicate 100 ?a)))) =
          map ?g (List.enumerate 0 (replicate 100 ?a))"
    using materializeLoop_all_files [of ?w "attachmentDirOf ?w None ''r1''" 0 "replicate 100 ?a"]
    by (simp add: materializeAttachmentInputs_def)
  then have "map fst (fst (materializeAttachmentInputs ?w None ''r1'' (Some (replicate 100 ?a)))) ! 99
          = path_join [attachmentDirOf ?w None ''r1'', attachmentFileName 99 ?a]"
    by (simp add: nth_enumerate_eq)
  moreover have "path_join [attachmentDirOf ?w None ''r1'', attachmentFileName 99 ?a]
          = ''/tmp/.durango/uploads/r1/100-a.png''"
    by code_simp
  moreover have "path_basename ''/tmp/.durango/uploads/r1/100-a.png'' = ''100-a.png''"
    by code_simp
  moreover have "\<not> matchesPattern ''100-a.png''"
    by code_simp
  moreover have "map fst (fst (materializeAttachmentInputs ?w None ''../../x'' (Some [?a])))
          = [''/tmp/x/01-a.png'']"
    by code_simp
  moreover have "\<not> prefix ''/tmp/.durango/uploads/'' ''/tmp/x/01-a.png''"
    by code_simp
  ultimately show ?thesis by simp
qed

text \<open>
  C7, amended: with the working directory of the process and the temporary directory
  absolute paths, and a request id whose segments between slashes are plain names (one
  name or more, none empty, \<^verbatim>\<open>.\<close> or \<^verbatim>\<open>..\<close>), the upload directory is
  \<^verbatim>\<open><base>/.durango/uploads/<requestId>\<close> below the directories of the base (the cwd of the
  request placed under the working directory of the process, or the temporary
  directory), and the files written are, in order, the entries of that directory named
  \<^verbatim>\<open><NN>-<safeName>\<close> for the attachments (all of them when no file-system call fails).
  \<^verbatim>\<open>NN\<close> is the 1-indexed position in decimal, padded with a zero to at least two
  digits; \<^verbatim>\<open>safeName\<close> is the base name with characters outside \<^verbatim>\<open>[A-Za-z0-9._-]\<close> replaced
  by underscores, cut to 120 characters, \<^verbatim>\<open>attachment\<close> when empty: never empty, at most
  120 characters, of characters \<^verbatim>\<open>[A-Za-z0-9._-]\<close> only. The name matches the pattern for
  the first 99 attachments of a list.
\<close>

theorem attachment_files:
  assumes tmp: "isAbsolute (tmpdir w)" and cwd0: "isAbsolute (processCwd w)"
    and rid: "list_all plainSegment (splitSlash requestId)"
  shows "let dirSegs = directories (specBase w cwd) @ [''.durango'', ''uploads''] @ splitSlash requestId;
             as = (case attachments of None \<Rightarrow> [] | Some xs \<Rightarrow> xs);
             expected = map (\<lambda>(i, a). absPath (dirSegs @ [specFileName i a])) (List.enumerate 0 as);
             written = map fst (fst (materializeAttachmentInputs w cwd requestId attachments))
         in attachmentDirOf w cwd requestId = absPath dirSegs \<and>
            prefix written expected \<and>
            (mkdirResult w = None \<and> (\<forall>p. writeFileResult w p = None) \<longrightarrow> written = expected) \<and>
            (\<forall>(i, a) \<in> set (List.enumerate 0 as).
               list_all isDigit (specPosition i) \<and>
               2 \<le> length (specPosition i) \<and>
               specSafeName (at_name a) \<noteq> [] \<and>
               length (specSafeName (at_name a)) \<le> 120 \<and>
               list_all safeChar (specSafeName (at_name a)) \<and>
               (i < 99 \<longrightarrow> matchesPattern (specFileName i a)))"
proof -
  define dirSegs where
    "dirSegs = directories (specBase w cwd) @ [''.durango'', ''uploads''] @ splitSlash requestId"
  define as where "as = (case attachments of None \<Rightarrow> [] | Some xs \<Rightarrow> xs)"
  have dir: "attachmentDirOf w cwd requestId = absPath dirSegs"
    unfolding dirSegs_def by (rule attachmentDirOf_spec [OF tmp cwd0 rid])
  have dp: "list_all plainSegment dirSegs"
    using rid directories_plain [of "specBase w cwd"] by (simp add: dirSegs_def plainSegment_def)
  have fileAt: "path_join [absPath dirSegs, attachmentFileName i a] = absPath (dirSegs @ [specFileName i a])"
    for i a
    using path_join_under [OF dp attachmentFileName_plain, of i a]
    by (simp only: attachmentFileName_spec)
  have paths: "(\<lambda>(i, a). path_join [absPath dirSegs, attachmentFileName i a]) =
               (\<lambda>(i, a). absPath (dirSegs @ [specFileName i a]))"
    by (simp add: fileAt)
  have pre: "prefix (map fst (fst (materializeAttachmentInputs w cwd requestId attachments)))
               (map (\<lambda>(i, a). absPath (dirSegs @ [specFileName i a])) (List.enumerate 0 as))"
    using materializeLoop_files [of w "absPath dirSegs" 0 as]
    by (simp add: materializeAttachmentInputs_def Let_def as_def [symmetric] dir paths
        split: option.splits)
  have full: "map fst (fst (materializeAttachmentInputs w cwd requestId attachments)) =
               map (\<lambda>(i, a). absPath (dirSegs @ [specFileName i a])) (List.enumerate 0 as)"
    if "mkdirResult w = None" and "\<forall>p. writeFileResult w p = None"
    using materializeLoop_all_files [of w "absPath dirSegs" 0 as] that
    by (simp add: materializeAttachmentInputs_def Let_def as_def [symmetric] dir paths)
  have names: "list_all isDigit (specPosition i) \<and>
               2 \<le> length (specPosition i) \<and>
               specSafeName (at_name a) \<noteq> [] \<and>
               length (specSafeName (at_name a)) \<le> 120 \<and>
               list_all safeChar (specSafeName (at_name a)) \<and>
               (i < 99 \<longrightarrow> matchesPattern (specFileName i a))" for i a
  proof -
    have "2 \<le> length (padStart2 (show_nat (i + 1)))"
      using show_nat_nonempty [of "i + 1"] by (cases "show_nat (i + 1)") (simp_all add: padStart2_def)
    then show ?thesis
      using sanitizeAttachmentName_safe [of "at_name a"] padStart2_digits [of "i + 1"]
        attachmentFileName_matches [of i a]
      by (simp only: attachmentFileName_spec sanitizeAttachmentName_spec padStart2_spec) simp
  qed
  have ball: "\<forall>(i, a) \<in> set (List.enumerate 0 as).
               list_all isDigit (specPosition i) \<and>
               2 \<le> length (specPosition i) \<and>
               specSafeName (at_name a) \<noteq> [] \<and>
               length (specSafeName (at_name a)) \<le> 120 \<and>
               list_all safeChar (specSafeName (at_name a)) \<and>
               (i < 99 \<longrightarrow> matchesPattern (specFileName i a))"
    unfolding split_def using names by blast
  have full': "mkdirResult w = None \<and> (\<forall>p. writeFileResult w p = None) \<longrightarrow>
        map fst (fst (materializeAttachmentInputs w cwd requestId attachments)) =
          map (\<lambda>(i, a). absPath (dirSegs @ [specFileName i a])) (List.enumerate 0 as)"
    using full by blast
  show ?thesis
    unfolding Let_def dirSegs_def [symmetric] as_def [symmetric]
    by (intro conjI dir pre full' ball)
qed

theorem attachment_files_witness:
  "attachmentDirOf
     \<lparr>processCwd = ''/home/u'', tmpdir = ''/tmp'', mkdirResult = None, writeFileResult = (\<lambda>p. None),
      threadStartResult = Inr ''c1'', turnStartResult = Inr (), threadReadResult = Inr JNull,
      listModelsResult = Inr (JArr []), turnInterruptResult = Inr ()\<rparr>
     (Some ''work/../proj/'') ''r1'' = ''/home/u/proj/.durango/uploads/r1'' \<and>
   map fst (fst (materializeAttachmentInputs
     \<lparr>processCwd = ''/home/u'', tmpdir = ''/tmp'', mkdirResult = None, writeFileResult = (\<lambda>p. None),
      threadStartResult = Inr ''c1'', turnStartResult = Inr (), threadReadResult = Inr JNull,
      listModelsResult = Inr (JArr []), turnInterruptResult = Inr ()\<rparr>
     (Some ''work/../proj/'') ''r1''
     (Some [\<lparr>at_id = ''1'', at_name = ''dir/my file(1).png'', at_mimeType = ''image/png'',
              at_contentBase64 = ''AAAA'', at_kind = ImageKind\<rparr>,
            \<lparr>at_id = ''2'', at_name = [], at_mimeType = ''text/plain'',
              at_contentBase64 = ''AAAA'', at_kind = FileKind\<rparr>,
            \<lparr>at_id = ''3'', at_name = ''notes/'', at_mimeType = ''text/plain'',
              at_contentBase64 = ''AAAA'', at_kind = FileKind\<rparr>])))
     = [''/home/u/proj/.durango/uploads/r1/01-my_file_1_.png'',
        ''/home/u/proj/.durango/uploads/r1/02-attachment'',
        ''/home/u/proj/.durango/uploads/r1/03-notes''] \<and>
   matchesPattern ''01-my_file_1_.png'' \<and> matchesPattern ''02-attachment'' \<and>
   matchesPattern ''03-notes''"
proof -
  let ?w = "\<lparr>processCwd = ''/home/u'', tmpdir = ''/tmp'', mkdirResult = None, writeFileResult = (\<lambda>p. None),
      threadStartResult = Inr ''c1'', turnStartResult = Inr (), threadReadResult = Inr JNull,
      listModelsResult = Inr (JArr []), turnInterruptResult = Inr ()\<rparr>"
  let ?a1 = "\<lparr>at_id = ''1'', at_name = ''dir/my file(1).png'', at_mimeType = ''image/png'',
              at_contentBase64 = ''AAAA'', at_kind = ImageKind\<rparr>"
  let ?a2 = "\<lparr>at_id = ''2'', at_name = [], at_mimeType = ''text/plain'',
              at_contentBase64 = ''AAAA'', at_kind = FileKind\<rparr>"
  let ?a3 = "\<lparr>at_id = ''3'', at_name = ''notes/'', at_mimeType = ''text/plain'',
              at_contentBase64 = ''AAAA'', at_kind = FileKind\<rparr>"
  have tmp: "isAbsolute (tmpdir ?w)" by code_simp
  have cwd0: "isAbsolute (processCwd ?w)" by code_simp
  have rid: "list_all plainSegment (splitSlash ''r1'')" by code_simp
  have rs: "splitSlash ''r1'' = [''r1'']" by code_simp
  have segs: "directories (specBase ?w (Some ''work/../proj/'')) = [''home'', ''u'', ''proj'']"
    by code_simp
  have n1: "specFileName 0 ?a1 = ''01-my_file_1_.png''" by code_simp
  have n2: "specFileName (Suc 0) ?a2 = ''02-attachment''" by code_simp
  have n3: "specFileName (Suc (Suc 0)) ?a3 = ''03-notes''" by code_simp
  have m1: "matchesPattern ''01-my_file_1_.png''" by code_simp
  have m2: "matchesPattern ''02-attachment''" by code_simp
  have m3: "matchesPattern ''03-notes''" by code_simp
  note t = attachment_files [OF tmp cwd0 rid, of "Some ''work/../proj/''" "Some [?a1, ?a2, ?a3]",
      unfolded Let_def]
  have d: "attachmentDirOf ?w (Some ''work/../proj/'') ''r1'' = ''/home/u/proj/.durango/uploads/r1''"
    using t by (simp add: segs rs absPath_def)
  have f: "map fst (fst (materializeAttachmentInputs ?w (Some ''work/../proj/'') ''r1'' (Some [?a1, ?a2, ?a3])))
      = [''/home/u/proj/.durango/uploads/r1/01-my_file_1_.png'',
         ''/home/u/proj/.durango/uploads/r1/02-attachment'',
         ''/home/u/proj/.durango/uploads/r1/03-notes'']"
    using t by (simp add: segs rs n1 n2 n3 absPath_def)
  show ?thesis
    using d f m1 m2 m3 by blast
qed

subsection \<open>The pending-request table (C4)\<close>

lemma signalCount_append [simp]:
  "signalCount rid (xs @ ys) = signalCount rid xs + signalCount rid ys"
  by (simp add: signalCount_def)

lemma signalCount_Nil [simp]: "signalCount rid [] = 0"
  by (simp add: signalCount_def)

lemma signalCount_Cons [simp]:
  "signalCount rid (e # es) = (if signals rid e then 1 else 0) + signalCount rid es"
  by (simp add: signalCount_def)

lemma tableDelete_keys [simp]: "fst ` set (tableDelete k t) = fst ` set t - {k}"
  by (auto simp: tableDelete_def)

lemma tableDelete_distinct: "distinct (map fst t) \<Longrightarrow> distinct (map fst (tableDelete k t))"
  by (simp add: tableDelete_def distinct_map_filter)

lemma map_of_keys: "map_of t k = Some v \<Longrightarrow> k \<in> fst ` set t"
  by (auto dest: map_of_SomeD intro: rev_image_eqI)

lemma run_snoc: "run (evs @ [e]) = step (run evs) e"
  by (simp add: run_def)

lemma requestIds_snoc:
  "requestIds (evs @ [e]) =
     requestIds evs @ (case e of RequestEvent rid meth \<Rightarrow> [rid] | _ \<Rightarrow> [])"
  by (induction evs rule: requestIds.induct) (auto split: event.splits)

text \<open>The loop of stop over a list of entries.\<close>

lemma foldl_stopEntry:
  "cl_log (foldl stopEntry c es) =
     cl_log c @ concat (map (\<lambda>entry. [Rejected (fst entry) (''Client closed before response: '' @ fst entry),
                                       Deleted (fst entry)]) es) \<and>
   cl_pending (foldl stopEntry c es) = filter (\<lambda>kv. fst kv \<notin> fst ` set es) (cl_pending c) \<and>
   cl_timers (foldl stopEntry c es) = filter (\<lambda>kv. fst kv \<notin> fst ` set es) (cl_timers c) \<and>
   cl_ws (foldl stopEntry c es) = cl_ws c"
proof (induction es arbitrary: c)
  case Nil
  show ?case by simp
next
  case (Cons e es)
  have "filter (\<lambda>kv. fst kv \<notin> fst ` set es) (filter (\<lambda>kv. fst kv \<noteq> fst e) t) =
        filter (\<lambda>kv. fst kv \<notin> fst ` set (e # es)) t" for t :: "(string \<times> string) list"
    by (induction t) auto
  then show ?case
    using Cons.IH [of "stopEntry c e"]
    by (simp add: stopEntry_def logged_def Let_def tableDelete_def)
qed

lemma stop_effects:
  "effectsSince c (stop c) =
     concat (map (\<lambda>entry. [Rejected (fst entry) (''Client closed before response: '' @ fst entry),
                             Deleted (fst entry)]) (cl_pending c)) \<and>
   cl_pending (stop c) = []"
proof -
  have "filter (\<lambda>kv. fst kv \<notin> fst ` set t) t = []" for t :: "(string \<times> string) list"
    by (induction t) auto
  then show ?thesis
    using foldl_stopEntry [of c "cl_pending c"] by (simp add: stop_def effectsSince_def)
qed

lemma count_key:
  "distinct (map fst es) \<Longrightarrow>
     signalCount rid (concat (map (\<lambda>entry. [Rejected (fst entry) (m entry), Deleted (fst entry)]) es))
       = (if rid \<in> fst ` set es then 1 else 0)"
  by (induction es) (auto simp: rev_image_eqI)

lemma response_effects:
  assumes "map_of (cl_pending c) rid = Some meth" and "m_id message = Some rid"
    and "m_result message \<noteq> None \<or> m_error message \<noteq> None"
  shows "effectsSince c (onMessage message c) =
           Deleted rid #
           (case m_error message of
              Some err \<Rightarrow> [Rejected rid (snd err)]
            | None \<Rightarrow> (case m_result message of Some result \<Rightarrow> [Resolved rid result] | None \<Rightarrow> []))"
    and "cl_pending (onMessage message c) = tableDelete rid (cl_pending c)"
    and "cl_timers (onMessage message c) = tableDelete rid (cl_timers c)"
    and "cl_ws (onMessage message c) = cl_ws c"
  using assms
  by (auto simp: onMessage_def Let_def logged_def effectsSince_def split: option.splits)

lemma timeout_effects:
  assumes "map_of (cl_timers c) rid = Some meth"
  shows "effectsSince c (onTimeout rid c) =
           [Deleted rid, Rejected rid (''Request timed out: '' @ meth)]"
    and "cl_pending (onTimeout rid c) = tableDelete rid (cl_pending c)"
    and "cl_timers (onTimeout rid c) = tableDelete rid (cl_timers c)"
  using assms by (simp_all add: onTimeout_def logged_def effectsSince_def)

lemma log_effectsSince:
  "prefix (cl_log c) (cl_log c') \<Longrightarrow> cl_log c' = cl_log c @ effectsSince c c'"
  by (auto simp: prefix_def effectsSince_def)

lemma settled_step:
  assumes s: "settled evs c" and d: "distinct (requestIds (evs @ [e]))"
  shows "settled (evs @ [e]) (step c e)"
proof -
  from s have dist: "distinct (map fst (cl_pending c))"
    and tim: "cl_timers c = cl_pending c"
    and sub: "set (map fst (cl_pending c)) \<subseteq> set (requestIds evs)"
    and cnt: "\<And>rid. signalCount rid (cl_log c) =
               (if rid \<in> set (requestIds evs) \<and> rid \<notin> set (map fst (cl_pending c)) then 1 else 0)"
    by (simp_all add: settled_def)
  show ?thesis
  proof (cases e)
    case (RequestEvent rid meth)
    have fresh: "rid \<notin> set (requestIds evs)"
      using d by (simp add: requestIds_snoc RequestEvent)
    then have notpending: "rid \<notin> fst ` set (cl_pending c)"
      using sub by auto
    show ?thesis
    proof (cases "cl_ws c = Some OPEN")
      case True
      then show ?thesis
        using dist tim sub cnt fresh notpending
        by (auto simp: settled_def RequestEvent request_def logged_def tableSet_def requestIds_snoc)
    next
      case False
      then show ?thesis
        using dist tim sub cnt fresh notpending
        by (auto simp: settled_def RequestEvent request_def logged_def requestIds_snoc)
    qed
  next
    case (MessageEvent message)
    show ?thesis
    proof (cases "\<exists>rid meth. m_id message = Some rid \<and> map_of (cl_pending c) rid = Some meth \<and>
                     (m_result message \<noteq> None \<or> m_error message \<noteq> None)")
      case True
      then obtain rid meth where
        i: "m_id message = Some rid" and p: "map_of (cl_pending c) rid = Some meth"
        and r: "m_result message \<noteq> None \<or> m_error message \<noteq> None"
        by blast
      have key: "rid \<in> fst ` set (cl_pending c)" by (rule map_of_keys [OF p])
      then have req: "rid \<in> set (requestIds evs)" using sub by auto
      have log: "cl_log (onMessage message c) =
           cl_log c @ Deleted rid #
           (case m_error message of
              Some err \<Rightarrow> [Rejected rid (snd err)]
            | None \<Rightarrow> (case m_result message of Some result \<Rightarrow> [Resolved rid result] | None \<Rightarrow> []))"
        using i p r by (auto simp: onMessage_def Let_def logged_def split: option.splits)
      have one: "signalCount rid' (cl_log (onMessage message c)) =
           signalCount rid' (cl_log c) + (if rid' = rid then 1 else 0)" for rid'
        using r by (auto simp: log split: option.splits)
      show ?thesis
        using dist tim sub cnt key req
        by (auto simp: settled_def MessageEvent one requestIds_snoc
            response_effects(2,3) [OF p i r] tableDelete_distinct)
    next
      case False
      then have same: "cl_pending (onMessage message c) = cl_pending c"
        "cl_timers (onMessage message c) = cl_timers c"
        "\<And>rid. signalCount rid (cl_log (onMessage message c)) = signalCount rid (cl_log c)"
        by (auto simp: onMessage_def notify_def logged_def Let_def split: option.splits)
      show ?thesis
        using dist tim sub cnt by (simp add: settled_def MessageEvent same requestIds_snoc)
    qed
  next
    case (TimeoutEvent rid)
    show ?thesis
    proof (cases "map_of (cl_timers c) rid")
      case None
      then show ?thesis
        using s by (simp add: settled_def TimeoutEvent onTimeout_def requestIds_snoc)
    next
      case (Some meth)
      have key: "rid \<in> fst ` set (cl_pending c)"
        using map_of_keys [OF Some] by (simp add: tim)
      then have req: "rid \<in> set (requestIds evs)" using sub by auto
      have log: "cl_log (onTimeout rid c) =
          cl_log c @ [Deleted rid, Rejected rid (''Request timed out: '' @ meth)]"
        using Some by (simp add: onTimeout_def logged_def)
      show ?thesis
        using dist tim sub cnt key req
        by (auto simp: settled_def TimeoutEvent log requestIds_snoc
            timeout_effects(2,3) [OF Some] tableDelete_distinct)
    qed
  next
    case OpenEvent
    then show ?thesis using s by (simp add: settled_def requestIds_snoc)
  next
    case CloseEvent
    then show ?thesis using s by (simp add: settled_def onClose_def requestIds_snoc)
  next
    case StopEvent
    have log: "cl_log (stop c) =
        cl_log c @ concat (map (\<lambda>entry. [Rejected (fst entry) (''Client closed before response: '' @ fst entry),
                                          Deleted (fst entry)]) (cl_pending c))"
      using foldl_stopEntry [of c "cl_pending c"] by (simp add: stop_def)
    have empty: "cl_pending (stop c) = []" by (simp add: stop_effects)
    have "filter (\<lambda>kv. fst kv \<notin> fst ` set t) t = []" for t :: "(string \<times> string) list"
      by (induction t) auto
    then have tempty: "cl_timers (stop c) = []"
      using foldl_stopEntry [of c "cl_pending c"] by (simp add: stop_def tim)
    show ?thesis
      using sub cnt by (auto simp: settled_def StopEvent log empty tempty requestIds_snoc count_key [OF dist])
  qed
qed

lemma settled_run: "distinct (requestIds evs) \<Longrightarrow> settled evs (run evs)"
proof (induction evs rule: rev_induct)
  case Nil
  show ?case by (simp add: settled_def run_def newClient_def)
next
  case (snoc e evs)
  have "distinct (requestIds evs)"
    using snoc.prems by (simp add: requestIds_snoc)
  then have "settled evs (run evs)" by (rule snoc.IH)
  then show ?case
    unfolding run_snoc using snoc.prems by (rule settled_step)
qed

text \<open>
  C4, as the claim states it, fails on the code: \<^verbatim>\<open>stop\<close> rejects a pending request first
  and deletes its entry afterwards, so on shutdown the rejector is signaled before the
  entry is removed.
\<close>

theorem pending_requests_counterexample:
  "cl_log (run [OpenEvent, RequestEvent ''r1'' ''thread/read'', StopEvent])
     = [SentRequest ''r1'' ''thread/read'',
        Rejected ''r1'' ''Client closed before response: r1'',
        Deleted ''r1'']"
  by code_simp

text \<open>
  C4, amended: in every run of the client with fresh request ids, a request that is
  pending has its timer armed and has not been signaled, and a request that is no longer
  pending has been signaled exactly once. A response to a pending request deletes the
  entry and then rejects with the error's message or resolves with the result; the timeout
  of a request deletes the entry and then rejects with \<^verbatim>\<open>Request timed out\<close>; after either,
  the entry is gone. \<^verbatim>\<open>stop\<close> rejects every pending request with \<^verbatim>\<open>Client closed before
  response\<close>, deleting each entry right after its rejection, and leaves the table empty.
\<close>

theorem pending_requests_settle:
  assumes "distinct (requestIds evs)"
  shows "settled evs (run evs) \<and>
         (map_of (cl_pending c) rid = Some meth \<and> m_id message = Some rid \<and>
          (m_result message \<noteq> None \<or> m_error message \<noteq> None) \<longrightarrow>
            effectsSince c (onMessage message c) =
              Deleted rid #
              (case m_error message of
                 Some err \<Rightarrow> [Rejected rid (snd err)]
               | None \<Rightarrow> (case m_result message of
                            Some result \<Rightarrow> [Resolved rid result]
                          | None \<Rightarrow> [])) \<and>
            rid \<notin> fst ` set (cl_pending (onMessage message c))) \<and>
         (map_of (cl_timers c) rid = Some meth \<longrightarrow>
            effectsSince c (onTimeout rid c) =
              [Deleted rid, Rejected rid (''Request timed out: '' @ meth)] \<and>
            rid \<notin> fst ` set (cl_pending (onTimeout rid c))) \<and>
         effectsSince c (stop c) =
           concat (map (\<lambda>entry. [Rejected (fst entry) (''Client closed before response: '' @ fst entry),
                                   Deleted (fst entry)]) (cl_pending c)) \<and>
         cl_pending (stop c) = []"
proof -
  have a: "settled evs (run evs)" by (rule settled_run [OF assms])
  have b: "effectsSince c (onMessage message c) =
              Deleted rid #
              (case m_error message of
                 Some err \<Rightarrow> [Rejected rid (snd err)]
               | None \<Rightarrow> (case m_result message of
                            Some result \<Rightarrow> [Resolved rid result]
                          | None \<Rightarrow> [])) \<and>
            rid \<notin> fst ` set (cl_pending (onMessage message c))"
    if "map_of (cl_pending c) rid = Some meth" "m_id message = Some rid"
       "m_result message \<noteq> None \<or> m_error message \<noteq> None"
    using response_effects(1,2) [OF that] by simp
  have t: "effectsSince c (onTimeout rid c) =
              [Deleted rid, Rejected rid (''Request timed out: '' @ meth)] \<and>
            rid \<notin> fst ` set (cl_pending (onTimeout rid c))"
    if "map_of (cl_timers c) rid = Some meth"
    using timeout_effects(1,2) [OF that] by simp
  show ?thesis
    using a b t stop_effects [of c] by blast
qed

theorem pending_requests_settle_witness:
  "signalCount ''r1''
     (cl_log (run [OpenEvent, RequestEvent ''r1'' ''thread/read'', RequestEvent ''r2'' ''turn/start'',
                   RequestEvent ''r3'' ''model/list'',
                   MessageEvent \<lparr>m_id = Some ''r1'', m_method = None, m_result = Some JNull, m_error = None\<rparr>,
                   TimeoutEvent ''r2'', StopEvent])) = 1 \<and>
   cl_log (run [OpenEvent, RequestEvent ''r1'' ''thread/read'', RequestEvent ''r2'' ''turn/start'',
                RequestEvent ''r3'' ''model/list'',
                MessageEvent \<lparr>m_id = Some ''r1'', m_method = None, m_result = Some JNull, m_error = None\<rparr>,
                TimeoutEvent ''r2'', StopEvent])
     = [SentRequest ''r1'' ''thread/read'', SentRequest ''r2'' ''turn/start'',
        SentRequest ''r3'' ''model/list'',
        Deleted ''r1'', Resolved ''r1'' JNull,
        Deleted ''r2'', Rejected ''r2'' ''Request timed out: turn/start'',
        Rejected ''r3'' ''Client closed before response: r3'', Deleted ''r3''] \<and>
   effectsSince \<lparr>cl_ws = Some OPEN, cl_pending = [(''r1'', ''thread/read'')],
                 cl_timers = [(''r1'', ''thread/read'')], cl_log = []\<rparr>
     (onMessage \<lparr>m_id = Some ''r1'', m_method = None, m_result = None, m_error = Some (- 32000, ''boom'')\<rparr>
        \<lparr>cl_ws = Some OPEN, cl_pending = [(''r1'', ''thread/read'')],
         cl_timers = [(''r1'', ''thread/read'')], cl_log = []\<rparr>)
     = [Deleted ''r1'', Rejected ''r1'' ''boom''] \<and>
   effectsSince \<lparr>cl_ws = Some OPEN, cl_pending = [(''r1'', ''thread/read'')],
                 cl_timers = [(''r1'', ''thread/read'')], cl_log = []\<rparr>
     (onTimeout ''r1''
        \<lparr>cl_ws = Some OPEN, cl_pending = [(''r1'', ''thread/read'')],
         cl_timers = [(''r1'', ''thread/read'')], cl_log = []\<rparr>)
     = [Deleted ''r1'', Rejected ''r1'' ''Request timed out: thread/read'']"
proof -
  let ?evs = "[OpenEvent, RequestEvent ''r1'' ''thread/read'', RequestEvent ''r2'' ''turn/start'',
                   RequestEvent ''r3'' ''model/list'',
                   MessageEvent \<lparr>m_id = Some ''r1'', m_method = None, m_result = Some JNull, m_error = None\<rparr>,
                   TimeoutEvent ''r2'', StopEvent]"
  let ?c = "\<lparr>cl_ws = Some OPEN, cl_pending = [(''r1'', ''thread/read'')],
                 cl_timers = [(''r1'', ''thread/read'')], cl_log = []\<rparr>"
  let ?m = "\<lparr>m_id = Some ''r1'', m_method = None, m_result = None, m_error = Some (- 32000, ''boom'')\<rparr>"
  have d: "distinct (requestIds ?evs)" by simp
  have p: "cl_pending (run ?evs) = []" by code_simp
  have l: "cl_log (run ?evs)
     = [SentRequest ''r1'' ''thread/read'', SentRequest ''r2'' ''turn/start'',
        SentRequest ''r3'' ''model/list'',
        Deleted ''r1'', Resolved ''r1'' JNull,
        Deleted ''r2'', Rejected ''r2'' ''Request timed out: turn/start'',
        Rejected ''r3'' ''Client closed before response: r3'', Deleted ''r3'']"
    by code_simp
  note t = pending_requests_settle [OF d, of ?c "''r1''" "''thread/read''" ?m]
  from t have "settled ?evs (run ?evs)" by blast
  then have one: "signalCount ''r1'' (cl_log (run ?evs)) = 1"
    unfolding settled_def p by simp
  have two: "effectsSince ?c (onMessage ?m ?c) = [Deleted ''r1'', Rejected ''r1'' ''boom'']"
    using t by simp
  have three: "effectsSince ?c (onTimeout ''r1'' ?c) = [Deleted ''r1'', Rejected ''r1'' ''Request timed out: thread/read'']"
    using t by simp
  show ?thesis using one l two three by blast
qed

end
